theory Spec2Isabelle
  imports Main "HOL-Library.Sublist"
begin

section \<open>The scene splitter \<^verbatim>\<open>scripts/split_route_gu_wan_scenes.py\<close>\<close>

text \<open>
  The script loads one JSON document (the route), iterates the list under its key
  \<^verbatim>\<open>scenes\<close> and writes every scene with a truthy \<^verbatim>\<open>scene_id\<close> to a file of its own.
  The three functions of the script (\<^verbatim>\<open>load_route_json\<close>, \<^verbatim>\<open>write_scene_file\<close>, \<^verbatim>\<open>main\<close>) are
  embedded below as functions on an explicit world (file system and standard output);
  every exception the script can raise is a value of type \<open>exn\<close>.

  Conventions of the embedding:
  \<^item> a Python \<^verbatim>\<open>str\<close> is the \<open>string\<close> of its UTF-8 bytes; a lone surrogate (which only a
    \<^verbatim>\<open>\uD800\<close>-style escape of the input can produce) is kept as its three-byte generalised
    encoding, and writing it to a UTF-8 file raises \<open>UnicodeEncodeError\<close> as in Python;
  \<^item> a Python \<^verbatim>\<open>float\<close> is the text of its \<^verbatim>\<open>repr\<close>; the conversion of a number literal to a
    float is a parameter (\<open>parse_float\<close>), floating point arithmetic is not modelled;
  \<^item> the file system is POSIX without symbolic links, permissions or size limits;
    \<^verbatim>\<open>os.path\<close> is \<^verbatim>\<open>posixpath\<close>;
  \<^item> the interpreter's recursion limit is part of the embedding of \<^verbatim>\<open>json.load\<close>, whose
    scanner raises \<open>RecursionError\<close> on containers nested too deeply; the frames of the
    script's own calls, which do not grow with the input, are taken to fit.
\<close>

subsection \<open>Values produced by \<^verbatim>\<open>json.load\<close>\<close>

datatype json =
    JNull
  | JBool bool
  | JInt int
  | JFloat string
  | JStr string
  | JArr "json list"
  | JObj "(string \<times> json) list"

datatype exn =
    FileNotFoundError
  | NotADirectoryError
  | IsADirectoryError
  | FileExistsError
  | ValueError
  | JSONDecodeError
  | UnicodeDecodeError
  | UnicodeEncodeError
  | RecursionError
  | AttributeError
  | TypeError

text \<open>
  What the Python runtime computes and this embedding leaves open:
  \<open>parse_float\<close> is \<^verbatim>\<open>repr(float(literal))\<close> for a JSON number literal with a fraction or an
  exponent; \<open>str_compound\<close> is \<^verbatim>\<open>str(v)\<close> for a list or a dict \<open>v\<close>; \<open>flushed\<close> is the part of
  a text that has reached the file when the UTF-8 codec rejects it (it depends on how the
  encoder cuts the text into chunks); \<open>recursion_room\<close> tells how deep \<^verbatim>\<open>json.load\<close> can
  descend into nested containers before it reaches the interpreter's recursion limit
  (\<open>depth_limit\<close> below).
\<close>

record pylib =
  parse_float :: "string \<Rightarrow> string"
  str_compound :: "json \<Rightarrow> string"
  flushed :: "string \<Rightarrow> string"
  recursion_room :: nat

text \<open>
  The number of nested containers the scanner of \<^verbatim>\<open>json.load\<close> enters: it calls
  \<^verbatim>\<open>Py_EnterRecursiveCall\<close> at every \<^verbatim>\<open>{\<close> and \<^verbatim>\<open>[\<close>, which fails once the recursion limit of
  the interpreter (1000 unless changed, and the script does not change it) is used up by
  the frames below the call and the containers entered so far. A runtime that has imported
  \<^verbatim>\<open>json\<close> and reached \<^verbatim>\<open>main\<close> has room for the two levels of a route with a list of scenes;
  \<open>recursion_room\<close> counts the levels beyond these two. CPython 3.11 with the default
  limit reads 992 nested containers in \<^verbatim>\<open>load_route_json\<close> called from \<^verbatim>\<open>main\<close>, and 994 when
  \<^verbatim>\<open>json.load\<close> is called from the top level of a script.
\<close>

definition depth_limit :: "pylib \<Rightarrow> nat" where
  "depth_limit lib = Suc (Suc (recursion_room lib))"

subsection \<open>Characters and numbers as text\<close>

definition is_digit :: "char \<Rightarrow> bool" where
  "is_digit c = (48 \<le> (of_char c :: nat) \<and> (of_char c :: nat) \<le> 57)"

definition digit_char :: "nat \<Rightarrow> char" where
  "digit_char d = ''0123456789abcdef'' ! d"

function nat_repr :: "nat \<Rightarrow> string" where
  "nat_repr n = (if n < 10 then [digit_char n] else nat_repr (n div 10) @ [digit_char (n mod 10)])"
  by pat_completeness auto
termination
  by (relation "measure id") auto

declare nat_repr.simps [simp del]

text \<open>\<^verbatim>\<open>int.__repr__\<close>: decimal digits, a minus sign for a negative number.\<close>

definition int_repr :: "int \<Rightarrow> string" where
  "int_repr i = (if i < 0 then CHR ''-'' # nat_repr (nat (- i)) else nat_repr (nat i))"

text \<open>\<^verbatim>\<open>int(text)\<close> for the text the number pattern matched: an optional sign and digits.\<close>

definition digits_val :: "string \<Rightarrow> nat" where
  "digits_val ds = foldl (\<lambda>acc c. 10 * acc + ((of_char c :: nat) - 48)) 0 ds"

definition int_of_text :: "string \<Rightarrow> int" where
  "int_of_text t = (case t of
      [] \<Rightarrow> 0
    | c # cs \<Rightarrow> if c = CHR ''-'' then - int (digits_val cs) else int (digits_val t))"

subsection \<open>The encoder: \<^verbatim>\<open>json.dump(scene, out, ensure_ascii=False, indent=4)\<close>\<close>

text \<open>
  \<^verbatim>\<open>encode_basestring\<close> (the encoder chosen by \<^verbatim>\<open>ensure_ascii=False\<close>) escapes the backslash,
  the double quote and the control characters below \<^verbatim>\<open>0x20\<close>; every other character,
  every byte of a non-ASCII character included, is copied.
\<close>

definition escape_char :: "char \<Rightarrow> string" where
  "escape_char c =
    (if c = CHR 0x5C then [CHR 0x5C, CHR 0x5C]
     else if c = CHR 0x22 then [CHR 0x5C, CHR 0x22]
     else if c = CHR 0x08 then [CHR 0x5C, CHR ''b'']
     else if c = CHR 0x0C then [CHR 0x5C, CHR ''f'']
     else if c = CHR 0x0A then [CHR 0x5C, CHR ''n'']
     else if c = CHR 0x0D then [CHR 0x5C, CHR ''r'']
     else if c = CHR 0x09 then [CHR 0x5C, CHR ''t'']
     else if (of_char c :: nat) < 32 then
       [CHR 0x5C, CHR ''u'', CHR ''0'', CHR ''0'',
        digit_char ((of_char c :: nat) div 16), digit_char ((of_char c :: nat) mod 16)]
     else [c])"

definition encode_basestring :: "string \<Rightarrow> string" where
  "encode_basestring s = CHR 0x22 # concat (map escape_char s) @ [CHR 0x22]"

text \<open>\<^verbatim>\<open>floatstr\<close>: the three non-finite floats have names of their own, the others their
  \<^verbatim>\<open>repr\<close>.\<close>

definition floatstr :: "string \<Rightarrow> string" where
  "floatstr r =
    (if r = ''nan'' then ''NaN''
     else if r = ''inf'' then ''Infinity''
     else if r = ''-inf'' then ''-Infinity''
     else r)"

text \<open>\<^verbatim>\<open>'\n' + _indent * _current_indent_level\<close> with \<^verbatim>\<open>_indent = ' ' * 4\<close>.\<close>

definition newline_indent :: "nat \<Rightarrow> string" where
  "newline_indent lvl = CHR 0x0A # replicate (4 * lvl) CHR '' ''"

text \<open>
  \<^verbatim>\<open>_iterencode\<close>, \<^verbatim>\<open>_iterencode_list\<close> and \<^verbatim>\<open>_iterencode_dict\<close>, with the chunks they yield
  concatenated. The flag \<open>first\<close> is the loop variable of the same name; the level passed
  to the two loops is the incremented \<^verbatim>\<open>_current_indent_level\<close>. With an indent the item
  separator is \<^verbatim>\<open>','\<close> and the key separator \<^verbatim>\<open>': '\<close>.
\<close>

fun iterencode :: "nat \<Rightarrow> json \<Rightarrow> string"
  and iterencode_list :: "nat \<Rightarrow> bool \<Rightarrow> json list \<Rightarrow> string"
  and iterencode_dict :: "nat \<Rightarrow> bool \<Rightarrow> (string \<times> json) list \<Rightarrow> string"
where
  "iterencode lvl JNull = ''null''"
| "iterencode lvl (JBool b) = (if b then ''true'' else ''false'')"
| "iterencode lvl (JInt i) = int_repr i"
| "iterencode lvl (JFloat r) = floatstr r"
| "iterencode lvl (JStr s) = encode_basestring s"
| "iterencode lvl (JArr xs) =
    (if xs = [] then ''[]''
     else ''['' @ iterencode_list (Suc lvl) True xs @ newline_indent lvl @ '']'')"
| "iterencode lvl (JObj kvs) =
    (if kvs = [] then ''{}''
     else ''{'' @ iterencode_dict (Suc lvl) True kvs @ newline_indent lvl @ ''}'')"
| "iterencode_list lvl first [] = []"
| "iterencode_list lvl first (v # vs) =
    (if first then newline_indent lvl else '','' @ newline_indent lvl)
      @ iterencode lvl v @ iterencode_list lvl False vs"
| "iterencode_dict lvl first [] = []"
| "iterencode_dict lvl first (kv # kvs) =
    (if first then newline_indent lvl else '','' @ newline_indent lvl)
      @ encode_basestring (fst kv) @ '': '' @ iterencode lvl (snd kv)
      @ iterencode_dict lvl False kvs"

definition json_dumps :: "json \<Rightarrow> string" where
  "json_dumps v = iterencode 0 v"

subsection \<open>The decoder: \<^verbatim>\<open>json.load\<close>\<close>

definition is_ws :: "char \<Rightarrow> bool" where
  "is_ws c = (c = CHR '' '' \<or> c = CHR 0x09 \<or> c = CHR 0x0A \<or> c = CHR 0x0D)"

definition skip_ws :: "string \<Rightarrow> string" where
  "skip_ws s = dropWhile is_ws s"

definition hexval :: "char \<Rightarrow> nat option" where
  "hexval c =
    (let n = (of_char c :: nat) in
     if 48 \<le> n \<and> n \<le> 57 then Some (n - 48)
     else if 97 \<le> n \<and> n \<le> 102 then Some (n - 87)
     else if 65 \<le> n \<and> n \<le> 70 then Some (n - 55)
     else None)"

text \<open>\<^verbatim>\<open>_decode_uXXXX\<close>: the four hexadecimal digits at the head of the text.\<close>

definition decode_uXXXX :: "string \<Rightarrow> nat option" where
  "decode_uXXXX s =
    (case s of
       a # b # c # d # _ \<Rightarrow>
         (case hexval a of None \<Rightarrow> None | Some x \<Rightarrow>
           (case hexval b of None \<Rightarrow> None | Some y \<Rightarrow>
             (case hexval c of None \<Rightarrow> None | Some z \<Rightarrow>
               (case hexval d of None \<Rightarrow> None | Some u \<Rightarrow>
                  Some (((x * 16 + y) * 16 + z) * 16 + u)))))
     | _ \<Rightarrow> None)"

text \<open>\<^verbatim>\<open>chr(uni)\<close> as UTF-8 bytes (a surrogate in the generalised three-byte form).\<close>

definition utf8_encode :: "nat \<Rightarrow> string" where
  "utf8_encode cp =
    (if cp < 0x80 then [char_of cp]
     else if cp < 0x800 then [char_of (0xC0 + cp div 0x40), char_of (0x80 + cp mod 0x40)]
     else if cp < 0x10000 then
       [char_of (0xE0 + cp div 0x1000), char_of (0x80 + cp div 0x40 mod 0x40),
        char_of (0x80 + cp mod 0x40)]
     else
       [char_of (0xF0 + cp div 0x40000), char_of (0x80 + cp div 0x1000 mod 0x40),
        char_of (0x80 + cp div 0x40 mod 0x40), char_of (0x80 + cp mod 0x40)])"

text \<open>The table \<^verbatim>\<open>BACKSLASH\<close>.\<close>

definition backslash :: "char \<Rightarrow> char option" where
  "backslash e =
    (if e = CHR 0x22 then Some (CHR 0x22)
     else if e = CHR 0x5C then Some (CHR 0x5C)
     else if e = CHR ''/'' then Some (CHR ''/'')
     else if e = CHR ''b'' then Some (CHR 0x08)
     else if e = CHR ''f'' then Some (CHR 0x0C)
     else if e = CHR ''n'' then Some (CHR 0x0A)
     else if e = CHR ''r'' then Some (CHR 0x0D)
     else if e = CHR ''t'' then Some (CHR 0x09)
     else None)"

definition scan_cons :: "string \<Rightarrow> (string \<times> string) option \<Rightarrow> (string \<times> string) option" where
  "scan_cons chunk res = (case res of None \<Rightarrow> None | Some (s, r) \<Rightarrow> Some (chunk @ s, r))"

text \<open>
  \<^verbatim>\<open>scanstring\<close> (strict), on the text after the opening quote: the decoded string and
  the text after the closing quote, or \<open>None\<close> where Python raises \<^verbatim>\<open>JSONDecodeError\<close>
  (unterminated string, control character, invalid escape).
\<close>

fun scanstring :: "string \<Rightarrow> (string \<times> string) option" where
  "scanstring [] = None"
| "scanstring (c # cs) =
    (if c = CHR 0x22 then Some ([], cs)
     else if c = CHR 0x5C then
       (case cs of
          [] \<Rightarrow> None
        | e # r \<Rightarrow>
            if e = CHR ''u'' then
              (case decode_uXXXX r of
                 None \<Rightarrow> None
               | Some uni \<Rightarrow>
                   if 0xD800 \<le> uni \<and> uni \<le> 0xDBFF \<and> take 2 (drop 4 r) = [CHR 0x5C, CHR ''u''] then
                     (case decode_uXXXX (drop 6 r) of
                        None \<Rightarrow> None
                      | Some uni2 \<Rightarrow>
                          if 0xDC00 \<le> uni2 \<and> uni2 \<le> 0xDFFF then
                            scan_cons
                              (utf8_encode (0x10000 + ((uni - 0xD800) * 0x400 + (uni2 - 0xDC00))))
                              (scanstring (drop 10 r))
                          else scan_cons (utf8_encode uni) (scanstring (drop 4 r)))
                   else scan_cons (utf8_encode uni) (scanstring (drop 4 r)))
            else
              (case backslash e of
                 None \<Rightarrow> None
               | Some ch \<Rightarrow> scan_cons [ch] (scanstring r)))
     else if (of_char c :: nat) < 32 then None
     else scan_cons [c] (scanstring cs))"

text \<open>
  \<^verbatim>\<open>NUMBER_RE\<close>, \<^verbatim>\<open>(-?(?:0|[1-9][0-9]*))(\.[0-9]+)?([eE][-+]?[0-9]+)?\<close>, group by group.
\<close>

definition match_integer :: "string \<Rightarrow> (string \<times> string) option" where
  "match_integer s =
    (let sign = (case s of [] \<Rightarrow> [] | c # _ \<Rightarrow> if c = CHR ''-'' then [c] else []);
         s1 = drop (length sign) s
     in case s1 of
          [] \<Rightarrow> None
        | d # ds \<Rightarrow>
            if d = CHR ''0'' then Some (sign @ [d], ds)
            else if is_digit d then Some (sign @ d # takeWhile is_digit ds, dropWhile is_digit ds)
            else None)"

definition match_frac :: "string \<Rightarrow> string \<times> string" where
  "match_frac s =
    (case s of
       c # d # ds \<Rightarrow>
         if c = CHR ''.'' \<and> is_digit d
         then (c # d # takeWhile is_digit ds, dropWhile is_digit ds)
         else ([], s)
     | _ \<Rightarrow> ([], s))"

definition match_exp :: "string \<Rightarrow> string \<times> string" where
  "match_exp s =
    (case s of
       [] \<Rightarrow> ([], s)
     | e # t \<Rightarrow>
         if e = CHR ''e'' \<or> e = CHR ''E'' then
           (let sg = (case t of [] \<Rightarrow> [] | x # _ \<Rightarrow> if x = CHR ''+'' \<or> x = CHR ''-'' then [x] else []);
                t' = drop (length sg) t
            in case t' of
                 [] \<Rightarrow> ([], s)
               | d # ds \<Rightarrow>
                   if is_digit d
                   then (e # sg @ d # takeWhile is_digit ds, dropWhile is_digit ds)
                   else ([], s))
         else ([], s))"

text \<open>\<^verbatim>\<open>d[k] = v\<close> on an insertion-ordered dict, and \<^verbatim>\<open>dict(pairs)\<close>.\<close>

fun dict_set :: "('k \<times> 'v) list \<Rightarrow> 'k \<Rightarrow> 'v \<Rightarrow> ('k \<times> 'v) list" where
  "dict_set [] k v = [(k, v)]"
| "dict_set (kv # d) k v = (if fst kv = k then (k, v) # d else kv # dict_set d k v)"

definition py_dict :: "('k \<times> 'v) list \<Rightarrow> ('k \<times> 'v) list" where
  "py_dict pairs = foldl (\<lambda>d kv. dict_set d (fst kv) (snd kv)) [] pairs"

text \<open>
  \<^verbatim>\<open>scan_once\<close>, \<^verbatim>\<open>JSONArray\<close> and \<^verbatim>\<open>JSONObject\<close>. Each takes a text and returns the value
  read and the text after it. \<open>JSONArray\<close> is entered at the first element with the values
  read so far, \<open>JSONObject\<close> after the opening quote of a key with the pairs read so far.
  The argument \<open>room\<close> is the number of containers that can still be entered: at \<^verbatim>\<open>{\<close> and
  \<^verbatim>\<open>[\<close> the scanner raises \<open>RecursionError\<close> when none is left, and reads the container
  with one less. Every other failure is a \<open>JSONDecodeError\<close>.

  The first counter only bounds the recursion of these definitions: every call decrements
  it, and \<open>json_loads\<close> starts with more than any text can use (a greater start gives the
  same result, lemma \<open>scan_fuel\<close>).
\<close>

fun scan_once :: "pylib \<Rightarrow> nat \<Rightarrow> nat \<Rightarrow> string \<Rightarrow> exn + json \<times> string"
  and JSONArray :: "pylib \<Rightarrow> nat \<Rightarrow> nat \<Rightarrow> json list \<Rightarrow> string \<Rightarrow> exn + json \<times> string"
  and JSONObject :: "pylib \<Rightarrow> nat \<Rightarrow> nat \<Rightarrow> (string \<times> json) list \<Rightarrow> string \<Rightarrow> exn + json \<times> string"
where
  "scan_once lib 0 room s = Inl RecursionError"
| "scan_once lib (Suc n) room s =
    (case s of
       [] \<Rightarrow> Inl JSONDecodeError
     | c # cs \<Rightarrow>
         if c = CHR 0x22 then
           (case scanstring cs of
              None \<Rightarrow> Inl JSONDecodeError
            | Some (str, r) \<Rightarrow> Inr (JStr str, r))
         else if c = CHR ''{'' then
           (if room = 0 then Inl RecursionError
            else case skip_ws cs of
              [] \<Rightarrow> Inl JSONDecodeError
            | d # r \<Rightarrow>
                if d = CHR ''}'' then Inr (JObj [], r)
                else if d = CHR 0x22 then JSONObject lib n (room - 1) [] r
                else Inl JSONDecodeError)
         else if c = CHR ''['' then
           (if room = 0 then Inl RecursionError
            else case skip_ws cs of
              [] \<Rightarrow> Inl JSONDecodeError
            | d # r \<Rightarrow>
                if d = CHR '']'' then Inr (JArr [], r)
                else JSONArray lib n (room - 1) [] (d # r))
         else if take 4 s = ''null'' then Inr (JNull, drop 4 s)
         else if take 4 s = ''true'' then Inr (JBool True, drop 4 s)
         else if take 5 s = ''false'' then Inr (JBool False, drop 5 s)
         else
           (case match_integer s of
              Some (i, r) \<Rightarrow>
                (let (f, r1) = match_frac r; (e, r2) = match_exp r1
                 in if f \<noteq> [] \<or> e \<noteq> []
                    then Inr (JFloat (parse_float lib (i @ f @ e)), r2)
                    else Inr (JInt (int_of_text i), r2))
            | None \<Rightarrow>
                if take 3 s = ''NaN'' then Inr (JFloat ''nan'', drop 3 s)
                else if take 8 s = ''Infinity'' then Inr (JFloat ''inf'', drop 8 s)
                else if take 9 s = ''-Infinity'' then Inr (JFloat ''-inf'', drop 9 s)
                else Inl JSONDecodeError))"
| "JSONArray lib 0 room values s = Inl RecursionError"
| "JSONArray lib (Suc n) room values s =
    (case scan_once lib n room s of
       Inl e \<Rightarrow> Inl e
     | Inr (v, r) \<Rightarrow>
         (case skip_ws r of
            [] \<Rightarrow> Inl JSONDecodeError
          | d # r1 \<Rightarrow>
              if d = CHR '']'' then Inr (JArr (values @ [v]), r1)
              else if d = CHR '','' then JSONArray lib n room (values @ [v]) (skip_ws r1)
              else Inl JSONDecodeError))"
| "JSONObject lib 0 room pairs s = Inl RecursionError"
| "JSONObject lib (Suc n) room pairs s =
    (case scanstring s of
       None \<Rightarrow> Inl JSONDecodeError
     | Some (key, r) \<Rightarrow>
         (case skip_ws r of
            [] \<Rightarrow> Inl JSONDecodeError
          | d # r1 \<Rightarrow>
              if d \<noteq> CHR '':'' then Inl JSONDecodeError
              else
                (case scan_once lib n room (skip_ws r1) of
                   Inl e \<Rightarrow> Inl e
                 | Inr (v, r2) \<Rightarrow>
                     (case skip_ws r2 of
                        [] \<Rightarrow> Inl JSONDecodeError
                      | d2 # r3 \<Rightarrow>
                          if d2 = CHR ''}'' then Inr (JObj (py_dict (pairs @ [(key, v)])), r3)
                          else if d2 = CHR '','' then
                            (case skip_ws r3 of
                               [] \<Rightarrow> Inl JSONDecodeError
                             | q # r4 \<Rightarrow>
                                 if q = CHR 0x22 then JSONObject lib n room (pairs @ [(key, v)]) r4
                                 else Inl JSONDecodeError)
                          else Inl JSONDecodeError))))"

text \<open>
  \<^verbatim>\<open>json.loads\<close> of a \<^verbatim>\<open>str\<close>: a leading byte order mark is refused, white space may
  surround the value, and anything else after it is \<^verbatim>\<open>Extra data\<close>.
\<close>

definition json_loads :: "pylib \<Rightarrow> string \<Rightarrow> exn + json" where
  "json_loads lib s =
    (if take 3 s = [CHR 0xEF, CHR 0xBB, CHR 0xBF] then Inl JSONDecodeError
     else case scan_once lib (2 * length s + 2) (depth_limit lib) (skip_ws s) of
            Inl e \<Rightarrow> Inl e
          | Inr (v, r) \<Rightarrow> if skip_ws r = [] then Inr v else Inl JSONDecodeError)"

subsection \<open>Python values: truth, \<^verbatim>\<open>str\<close>, \<^verbatim>\<open>dict.get\<close>, iteration\<close>

text \<open>The truth value Python's \<^verbatim>\<open>if not scene_id\<close> tests.\<close>

fun truthy :: "json \<Rightarrow> bool" where
  "truthy JNull = False"
| "truthy (JBool b) = b"
| "truthy (JInt i) = (i \<noteq> 0)"
| "truthy (JFloat r) = (r \<noteq> ''0.0'' \<and> r \<noteq> ''-0.0'')"
| "truthy (JStr s) = (s \<noteq> [])"
| "truthy (JArr xs) = (xs \<noteq> [])"
| "truthy (JObj kvs) = (kvs \<noteq> [])"

text \<open>What the f-string \<^verbatim>\<open>f"{scene_id}.json"\<close> substitutes: \<^verbatim>\<open>str(scene_id)\<close>.\<close>

fun py_str :: "pylib \<Rightarrow> json \<Rightarrow> string" where
  "py_str lib JNull = ''None''"
| "py_str lib (JBool b) = (if b then ''True'' else ''False'')"
| "py_str lib (JInt i) = int_repr i"
| "py_str lib (JFloat r) = r"
| "py_str lib (JStr s) = s"
| "py_str lib (JArr xs) = str_compound lib (JArr xs)"
| "py_str lib (JObj kvs) = str_compound lib (JObj kvs)"

text \<open>
  \<^verbatim>\<open>obj.get(key, default)\<close>: only a dict has the method; \<^verbatim>\<open>obj.get(key)\<close> is the call with the
  default \<^verbatim>\<open>None\<close>.
\<close>

definition py_get :: "json \<Rightarrow> string \<Rightarrow> json \<Rightarrow> exn + json" where
  "py_get obj key dflt =
    (case obj of
       JObj d \<Rightarrow> (case map_of d key of None \<Rightarrow> Inr dflt | Some v \<Rightarrow> Inr v)
     | _ \<Rightarrow> Inl AttributeError)"

text \<open>
  The elements a \<^verbatim>\<open>for\<close> loop visits: those of a list, the keys of a dict, the characters
  of a string (here byte by byte; whatever the element, \<^verbatim>\<open>write_scene_file\<close> fails on it
  before any effect). Nothing else that \<^verbatim>\<open>json.load\<close> returns is iterable.
\<close>

definition py_iter :: "json \<Rightarrow> exn + json list" where
  "py_iter v =
    (case v of
       JArr xs \<Rightarrow> Inr xs
     | JObj d \<Rightarrow> Inr (map (\<lambda>kv. JStr (fst kv)) d)
     | JStr s \<Rightarrow> Inr (map (\<lambda>c. JStr [c]) s)
     | _ \<Rightarrow> Inl TypeError)"

subsection \<open>Paths: \<^verbatim>\<open>os.path.join\<close> and \<^verbatim>\<open>os.path.dirname\<close>\<close>

definition path_join :: "string \<Rightarrow> string \<Rightarrow> string" where
  "path_join a b =
    (if b \<noteq> [] \<and> hd b = CHR ''/'' then b
     else if a = [] \<or> last a = CHR ''/'' then a @ b
     else a @ ''/'' @ b)"

text \<open>
  \<^verbatim>\<open>dirname\<close>: the text up to the last separator; its trailing separators are stripped
  unless it consists of separators only.
\<close>

definition dirname :: "string \<Rightarrow> string" where
  "dirname p =
    (let head = rev (dropWhile (\<lambda>c. c \<noteq> CHR ''/'') (rev p))
     in if head \<noteq> [] \<and> \<not> list_all (\<lambda>c. c = CHR ''/'') head
        then rev (dropWhile (\<lambda>c. c = CHR ''/'') (rev head))
        else head)"

subsection \<open>The world: a file system and standard output\<close>

text \<open>
  A location is the list of names from the root. \<open>dirs\<close> holds the directories (the root
  is always one), \<open>files\<close> the regular files with their bytes, \<open>cwd\<close> the location that
  relative paths start from, \<open>stdout\<close> what has been printed.
\<close>

record world =
  dirs :: "string list set"
  files :: "string list \<Rightarrow> string option"
  cwd :: "string list"
  stdout :: string

definition is_dir :: "world \<Rightarrow> string list \<Rightarrow> bool" where
  "is_dir w loc = (loc = [] \<or> loc \<in> dirs w)"

text \<open>\<^verbatim>\<open>path.split('/')\<close>.\<close>

fun split_sep :: "string \<Rightarrow> string list" where
  "split_sep [] = [[]]"
| "split_sep (c # s) =
    (if c = CHR ''/'' then [] # split_sep s
     else (case split_sep s of [] \<Rightarrow> [[c]] | x # xs \<Rightarrow> (c # x) # xs))"

definition start_dir :: "world \<Rightarrow> string \<Rightarrow> string list" where
  "start_dir w path = (if path \<noteq> [] \<and> hd path = CHR ''/'' then [] else cwd w)"

text \<open>
  Path resolution through directories: empty names and \<^verbatim>\<open>.\<close> stay, \<^verbatim>\<open>..\<close> goes up, any
  other name must be a directory (\<^verbatim>\<open>ENOTDIR\<close> when it is a file, \<^verbatim>\<open>ENOENT\<close> when it is
  nothing).
\<close>

fun walk :: "world \<Rightarrow> string list \<Rightarrow> string list \<Rightarrow> exn + string list" where
  "walk w cur [] = Inr cur"
| "walk w cur (c # cs) =
    (if c = [] \<or> c = ''.'' then walk w cur cs
     else if c = ''..'' then walk w (butlast cur) cs
     else if is_dir w (cur @ [c]) then walk w (cur @ [c]) cs
     else if files w (cur @ [c]) \<noteq> None then Inl NotADirectoryError
     else Inl FileNotFoundError)"

text \<open>
  The location a path names for \<^verbatim>\<open>open\<close>: its directory part is resolved, its last name
  appended. A path that ends in a separator, \<^verbatim>\<open>.\<close> or \<^verbatim>\<open>..\<close> names a directory. A path
  with a NUL byte is refused with \<^verbatim>\<open>ValueError\<close>, the empty path does not exist.
\<close>

definition locate :: "world \<Rightarrow> string \<Rightarrow> exn + string list" where
  "locate w path =
    (if CHR 0x00 \<in> set path then Inl ValueError
     else if path = [] then Inl FileNotFoundError
     else case walk w (start_dir w path) (butlast (split_sep path)) of
            Inl e \<Rightarrow> Inl e
          | Inr d \<Rightarrow>
              (let name = last (split_sep path)
               in if name = [] \<or> name = ''.'' \<or> name = ''..'' then Inl IsADirectoryError
                  else if is_dir w (d @ [name]) then Inl IsADirectoryError
                  else Inr (d @ [name])))"

text \<open>
  \<^verbatim>\<open>open(path, "r", encoding="utf-8")\<close> and \<^verbatim>\<open>read()\<close>: the bytes must be UTF-8 (an encoded
  surrogate is not), and the three line endings are read as \<^verbatim>\<open>\n\<close>.
\<close>

definition cont_byte :: "char \<Rightarrow> bool" where
  "cont_byte c = (0x80 \<le> (of_char c :: nat) \<and> (of_char c :: nat) \<le> 0xBF)"

fun valid_utf8 :: "string \<Rightarrow> bool" where
  "valid_utf8 [] = True"
| "valid_utf8 (a # s) =
    (let n = (of_char a :: nat) in
     if n < 0x80 then valid_utf8 s
     else if 0xC2 \<le> n \<and> n \<le> 0xDF then
       (case s of
          b # s' \<Rightarrow> cont_byte b \<and> valid_utf8 s'
        | _ \<Rightarrow> False)
     else if 0xE0 \<le> n \<and> n \<le> 0xEF then
       (case s of
          b # c # s' \<Rightarrow>
            cont_byte b \<and> cont_byte c
            \<and> (n = 0xE0 \<longrightarrow> 0xA0 \<le> (of_char b :: nat))
            \<and> (n = 0xED \<longrightarrow> (of_char b :: nat) \<le> 0x9F)
            \<and> valid_utf8 s'
        | _ \<Rightarrow> False)
     else if 0xF0 \<le> n \<and> n \<le> 0xF4 then
       (case s of
          b # c # d # s' \<Rightarrow>
            cont_byte b \<and> cont_byte c \<and> cont_byte d
            \<and> (n = 0xF0 \<longrightarrow> 0x90 \<le> (of_char b :: nat))
            \<and> (n = 0xF4 \<longrightarrow> (of_char b :: nat) \<le> 0x8F)
            \<and> valid_utf8 s'
        | _ \<Rightarrow> False)
     else False)"

fun universal_newlines :: "string \<Rightarrow> string" where
  "universal_newlines [] = []"
| "universal_newlines [c] = (if c = CHR 0x0D then [CHR 0x0A] else [c])"
| "universal_newlines (c # d # s) =
    (if c = CHR 0x0D \<and> d = CHR 0x0A then CHR 0x0A # universal_newlines s
     else if c = CHR 0x0D then CHR 0x0A # universal_newlines (d # s)
     else c # universal_newlines (d # s))"

definition read_text :: "world \<Rightarrow> string \<Rightarrow> exn + string" where
  "read_text w path =
    (case locate w path of
       Inl e \<Rightarrow> Inl e
     | Inr loc \<Rightarrow>
         (case files w loc of
            None \<Rightarrow> Inl FileNotFoundError
          | Some bytes \<Rightarrow>
              if valid_utf8 bytes then Inr (universal_newlines bytes)
              else Inl UnicodeDecodeError))"

text \<open>
  \<^verbatim>\<open>open(path, "w", encoding="utf-8")\<close> creates the file or empties it and returns its
  location (the open file).
\<close>

definition open_w :: "world \<Rightarrow> string \<Rightarrow> (exn + string list) \<times> world" where
  "open_w w path =
    (case locate w path of
       Inl e \<Rightarrow> (Inl e, w)
     | Inr loc \<Rightarrow> (Inr loc, w\<lparr>files := (files w)(loc \<mapsto> [])\<rparr>))"

text \<open>
  Writing a text to the open file appends its UTF-8 bytes. A text with a surrogate cannot
  be encoded: \<^verbatim>\<open>UnicodeEncodeError\<close>, after the part \<open>flushed\<close> has reached the file.
\<close>

fun has_surrogate :: "string \<Rightarrow> bool" where
  "has_surrogate (a # b # s) =
    ((a = CHR 0xED \<and> 0xA0 \<le> (of_char b :: nat)) \<or> has_surrogate (b # s))"
| "has_surrogate _ = False"

definition file_content :: "world \<Rightarrow> string list \<Rightarrow> string" where
  "file_content w loc = (case files w loc of None \<Rightarrow> [] | Some t \<Rightarrow> t)"

definition file_write :: "pylib \<Rightarrow> world \<Rightarrow> string list \<Rightarrow> string \<Rightarrow> (exn + unit) \<times> world" where
  "file_write lib w loc text =
    (if has_surrogate text
     then (Inl UnicodeEncodeError,
           w\<lparr>files := (files w)(loc \<mapsto> file_content w loc @ flushed lib text)\<rparr>)
     else (Inr (), w\<lparr>files := (files w)(loc \<mapsto> file_content w loc @ text)\<rparr>))"

text \<open>
  \<^verbatim>\<open>os.makedirs(name, exist_ok=True)\<close>: every directory missing along the path is created,
  from the left; a file in the way is \<^verbatim>\<open>FileExistsError\<close> at the end of the path and
  \<^verbatim>\<open>NotADirectoryError\<close> before it.
\<close>

fun makedirs_walk :: "world \<Rightarrow> string list \<Rightarrow> string list \<Rightarrow> (exn + unit) \<times> world" where
  "makedirs_walk w cur [] = (Inr (), w)"
| "makedirs_walk w cur (c # cs) =
    (if c = [] \<or> c = ''.'' then makedirs_walk w cur cs
     else if c = ''..'' then makedirs_walk w (butlast cur) cs
     else if CHR 0x00 \<in> set c then (Inl ValueError, w)
     else if is_dir w (cur @ [c]) then makedirs_walk w (cur @ [c]) cs
     else if files w (cur @ [c]) \<noteq> None then
       (Inl (if list_all (\<lambda>x. x = []) cs then FileExistsError else NotADirectoryError), w)
     else makedirs_walk (w\<lparr>dirs := insert (cur @ [c]) (dirs w)\<rparr>) (cur @ [c]) cs)"

definition makedirs :: "world \<Rightarrow> string \<Rightarrow> (exn + unit) \<times> world" where
  "makedirs w name =
    (if name = [] then (Inl FileNotFoundError, w)
     else makedirs_walk w (start_dir w name) (split_sep name))"

text \<open>\<^verbatim>\<open>print(line)\<close>.\<close>

definition py_print :: "world \<Rightarrow> string \<Rightarrow> world" where
  "py_print w line = w\<lparr>stdout := stdout w @ line @ [CHR 0x0A]\<rparr>"

subsection \<open>The script\<close>

text \<open>
  \<^verbatim>\<open>
  def load_route_json(route_path: str) -> dict:
      with open(route_path, "r", encoding="utf-8") as f:
          return json.load(f)
  \<close>
\<close>

definition load_route_json :: "pylib \<Rightarrow> world \<Rightarrow> string \<Rightarrow> exn + json" where
  "load_route_json lib w route_path =
    (case read_text w route_path of
       Inl e \<Rightarrow> Inl e
     | Inr text \<Rightarrow> json_loads lib text)"

text \<open>
  \<^verbatim>\<open>
  def write_scene_file(output_dir: str, scene: dict) -> str:
      scene_id = scene.get("scene_id")
      if not scene_id:
          return ""
      os.makedirs(output_dir, exist_ok=True)
      out_path = os.path.join(output_dir, f"{scene_id}.json")
      with open(out_path, "w", encoding="utf-8") as out:
          json.dump(scene, out, ensure_ascii=False, indent=4)
          out.write("\n")
      return out_path
  \<close>
\<close>

definition write_scene_file :: "pylib \<Rightarrow> string \<Rightarrow> json \<Rightarrow> world \<Rightarrow> (exn + string) \<times> world" where
  "write_scene_file lib output_dir scene w =
    (case py_get scene ''scene_id'' JNull of
       Inl e \<Rightarrow> (Inl e, w)
     | Inr scene_id \<Rightarrow>
         if \<not> truthy scene_id then (Inr [], w)
         else
           (case makedirs w output_dir of
              (Inl e, w1) \<Rightarrow> (Inl e, w1)
            | (Inr _, w1) \<Rightarrow>
                (let out_path = path_join output_dir (py_str lib scene_id @ ''.json'')
                 in case open_w w1 out_path of
                      (Inl e, w2) \<Rightarrow> (Inl e, w2)
                    | (Inr out, w2) \<Rightarrow>
                        (case file_write lib w2 out (json_dumps scene) of
                           (Inl e, w3) \<Rightarrow> (Inl e, w3)
                         | (Inr _, w3) \<Rightarrow>
                             (case file_write lib w3 out [CHR 0x0A] of
                                (Inl e, w4) \<Rightarrow> (Inl e, w4)
                              | (Inr _, w4) \<Rightarrow> (Inr out_path, w4))))))"

text \<open>
  \<^verbatim>\<open>
      written_paths = []
      for scene in scenes:
          p = write_scene_file(output_dir, scene)
          if p:
              written_paths.append(p)
  \<close>
\<close>

fun main_loop :: "pylib \<Rightarrow> string \<Rightarrow> json list \<Rightarrow> string list \<Rightarrow> world \<Rightarrow> (exn + string list) \<times> world" where
  "main_loop lib output_dir [] written_paths w = (Inr written_paths, w)"
| "main_loop lib output_dir (scene # scenes) written_paths w =
    (case write_scene_file lib output_dir scene w of
       (Inl e, w') \<Rightarrow> (Inl e, w')
     | (Inr p, w') \<Rightarrow>
         main_loop lib output_dir scenes
           (if p \<noteq> [] then written_paths @ [p] else written_paths) w')"

text \<open>
  \<^verbatim>\<open>
  def main():
      project_root = os.path.dirname(os.path.dirname(os.path.abspath(__file__)))
      route_path = os.path.join(project_root, "data", "route_gu_wan.json")
      output_dir = os.path.join(project_root, "data", "route_gu_wan_scenes")
      route_data = load_route_json(route_path)
      scenes = route_data.get("scenes", [])
      (the loop)
      print(f"written {len(written_paths)} scene files to {output_dir}")
  \<close>
  \<open>abs_file\<close> is the value of \<^verbatim>\<open>os.path.abspath(__file__)\<close>, the absolute path of the script.
\<close>

definition project_root :: "string \<Rightarrow> string" where
  "project_root abs_file = dirname (dirname abs_file)"

definition route_path :: "string \<Rightarrow> string" where
  "route_path abs_file = path_join (path_join (project_root abs_file) ''data'') ''route_gu_wan.json''"

definition output_dir :: "string \<Rightarrow> string" where
  "output_dir abs_file = path_join (path_join (project_root abs_file) ''data'') ''route_gu_wan_scenes''"

definition summary_line :: "nat \<Rightarrow> string \<Rightarrow> string" where
  "summary_line count dir = ''written '' @ nat_repr count @ '' scene files to '' @ dir"

definition main :: "pylib \<Rightarrow> string \<Rightarrow> world \<Rightarrow> (exn + unit) \<times> world" where
  "main lib abs_file w =
    (case load_route_json lib w (route_path abs_file) of
       Inl e \<Rightarrow> (Inl e, w)
     | Inr route_data \<Rightarrow>
         (case py_get route_data ''scenes'' (JArr []) of
            Inl e \<Rightarrow> (Inl e, w)
          | Inr scenes \<Rightarrow>
              (case py_iter scenes of
                 Inl e \<Rightarrow> (Inl e, w)
               | Inr items \<Rightarrow>
                   (case main_loop lib (output_dir abs_file) items [] w of
                      (Inl e, w') \<Rightarrow> (Inl e, w')
                    | (Inr written_paths, w') \<Rightarrow>
                        (Inr (), py_print w' (summary_line (length written_paths) (output_dir abs_file)))))))"

subsection \<open>What a run is expected to leave behind\<close>

text \<open>
  The vocabulary of the properties below: whether a scene has an identifier that counts
  (a truthy \<^verbatim>\<open>scene_id\<close>), the path derived for it, the text its file gets, and the
  location that path names in a world.
\<close>

definition has_id :: "json \<Rightarrow> bool" where
  "has_id scene =
    (case scene of
       JObj d \<Rightarrow> (case map_of d ''scene_id'' of None \<Rightarrow> False | Some v \<Rightarrow> truthy v)
     | _ \<Rightarrow> False)"

definition scene_path :: "pylib \<Rightarrow> string \<Rightarrow> json \<Rightarrow> string" where
  "scene_path lib dir scene =
    (case py_get scene ''scene_id'' JNull of
       Inl e \<Rightarrow> []
     | Inr scene_id \<Rightarrow> path_join dir (py_str lib scene_id @ ''.json''))"

definition scene_text :: "json \<Rightarrow> string" where
  "scene_text scene = json_dumps scene @ [CHR 0x0A]"

definition scene_loc :: "pylib \<Rightarrow> world \<Rightarrow> string \<Rightarrow> json \<Rightarrow> string list" where
  "scene_loc lib w dir scene =
    (case locate w (scene_path lib dir scene) of Inl e \<Rightarrow> [] | Inr loc \<Rightarrow> loc)"

text \<open>The effect of one successful write on the files, and of a list of them in order.\<close>

definition put_scene ::
  "pylib \<Rightarrow> world \<Rightarrow> string \<Rightarrow> (string list \<Rightarrow> string option) \<Rightarrow> json \<Rightarrow> (string list \<Rightarrow> string option)" where
  "put_scene lib w dir f scene = f(scene_loc lib w dir scene \<mapsto> scene_text scene)"

definition put_scenes ::
  "pylib \<Rightarrow> world \<Rightarrow> string \<Rightarrow> (string list \<Rightarrow> string option) \<Rightarrow> json list \<Rightarrow> (string list \<Rightarrow> string option)" where
  "put_scenes lib w dir f scenes = foldl (put_scene lib w dir) f (filter has_id scenes)"

text \<open>
  The scenes written to a location, in list order, and the world of the first write: the
  one in which the output directory has been made (the world itself when no scene has an
  identifier).
\<close>

definition writers :: "pylib \<Rightarrow> world \<Rightarrow> string \<Rightarrow> json list \<Rightarrow> string list \<Rightarrow> json list" where
  "writers lib w dir scenes loc = filter (\<lambda>s. has_id s \<and> scene_loc lib w dir s = loc) scenes"

definition prepared :: "world \<Rightarrow> string \<Rightarrow> json list \<Rightarrow> world" where
  "prepared w dir scenes = (if filter has_id scenes = [] then w else snd (makedirs w dir))"

text \<open>Two scenes have the same identifier (and the second one counts).\<close>

definition same_id :: "json \<Rightarrow> json \<Rightarrow> bool" where
  "same_id s t = (has_id t \<and> py_get t ''scene_id'' JNull = py_get s ''scene_id'' JNull)"

text \<open>
  Values that can be read back: the keys of a dict are distinct, as in every Python dict,
  and a float is \<^verbatim>\<open>inf\<close>, \<^verbatim>\<open>-inf\<close> or has a \<^verbatim>\<open>repr\<close> that is a number literal with a
  fraction or an exponent and that \<open>parse_float\<close> reads back as the same float, as the
  \<^verbatim>\<open>repr\<close> of CPython's finite floats is. A NaN is left out: it is written as \<^verbatim>\<open>NaN\<close> and
  read back as a NaN, but Python's \<^verbatim>\<open>==\<close> holds no NaN equal to any float, itself included.
\<close>

definition float_literal :: "string \<Rightarrow> bool" where
  "float_literal r =
    (case match_integer r of
       None \<Rightarrow> False
     | Some (i, r1) \<Rightarrow>
         (case match_frac r1 of
            (f, r2) \<Rightarrow>
              (case match_exp r2 of
                 (e, r3) \<Rightarrow> r3 = [] \<and> (f \<noteq> [] \<or> e \<noteq> []))))"

definition float_ok :: "pylib \<Rightarrow> string \<Rightarrow> bool" where
  "float_ok lib r =
    (r = ''inf'' \<or> r = ''-inf'' \<or> (float_literal r \<and> parse_float lib r = r))"

fun wf_json :: "pylib \<Rightarrow> json \<Rightarrow> bool"
  and wf_list :: "pylib \<Rightarrow> json list \<Rightarrow> bool"
  and wf_dict :: "pylib \<Rightarrow> (string \<times> json) list \<Rightarrow> bool"
where
  "wf_json lib (JFloat r) = float_ok lib r"
| "wf_json lib (JArr xs) = wf_list lib xs"
| "wf_json lib (JObj kvs) = (distinct (map fst kvs) \<and> wf_dict lib kvs)"
| "wf_json lib JNull = True"
| "wf_json lib (JBool b) = True"
| "wf_json lib (JInt i) = True"
| "wf_json lib (JStr s) = True"
| "wf_list lib [] = True"
| "wf_list lib (x # xs) = (wf_json lib x \<and> wf_list lib xs)"
| "wf_dict lib [] = True"
| "wf_dict lib (kv # kvs) = (wf_json lib (snd kv) \<and> wf_dict lib kvs)"

text \<open>What follows a value in the encoder's output: nothing, a comma or a line break.\<close>

definition delimited :: "string \<Rightarrow> bool" where
  "delimited rest = (case rest of [] \<Rightarrow> True | c # _ \<Rightarrow> c = CHR '','' \<or> c = CHR 0x0A)"

subsection \<open>The layout the specification describes\<close>

text \<open>
  The output format in the specification's words: JSON text, pretty-printed with an
  indentation of four spaces per nesting level. Every element of a non-empty list and every
  member of a non-empty object stands on a line of its own, indented one level deeper than
  the bracket that opens the collection; the lines are separated by a comma at the end of
  the line, and the closing bracket stands on its own line at the level of the opening one.
  Strings, numbers and constants are written as the encoder writes them.
\<close>

definition indent :: "nat \<Rightarrow> string" where
  "indent lvl = replicate (4 * lvl) CHR '' ''"

fun join_lines :: "string list \<Rightarrow> string" where
  "join_lines [] = []"
| "join_lines [l] = l"
| "join_lines (l # m # ls) = l @ '','' @ [CHR 0x0A] @ join_lines (m # ls)"

fun pretty :: "nat \<Rightarrow> json \<Rightarrow> string"
  and pretty_items :: "nat \<Rightarrow> json list \<Rightarrow> string list"
  and pretty_members :: "nat \<Rightarrow> (string \<times> json) list \<Rightarrow> string list"
where
  "pretty lvl JNull = ''null''"
| "pretty lvl (JBool b) = (if b then ''true'' else ''false'')"
| "pretty lvl (JInt i) = int_repr i"
| "pretty lvl (JFloat r) = floatstr r"
| "pretty lvl (JStr s) = encode_basestring s"
| "pretty lvl (JArr xs) =
    (if xs = [] then ''[]''
     else ''['' @ [CHR 0x0A] @ join_lines (pretty_items (Suc lvl) xs)
          @ [CHR 0x0A] @ indent lvl @ '']'')"
| "pretty lvl (JObj kvs) =
    (if kvs = [] then ''{}''
     else ''{'' @ [CHR 0x0A] @ join_lines (pretty_members (Suc lvl) kvs)
          @ [CHR 0x0A] @ indent lvl @ ''}'')"
| "pretty_items lvl [] = []"
| "pretty_items lvl (x # xs) = (indent lvl @ pretty lvl x) # pretty_items lvl xs"
| "pretty_members lvl [] = []"
| "pretty_members lvl (kv # kvs) =
    (indent lvl @ encode_basestring (fst kv) @ '': '' @ pretty lvl (snd kv))
      # pretty_members lvl kvs"

subsection \<open>A concrete installation\<close>

text \<open>
  A project at \<^verbatim>\<open>/proj\<close> with the script in \<^verbatim>\<open>/proj/scripts\<close>, the route file with the given
  bytes in \<^verbatim>\<open>/proj/data\<close>, and a directory \<^verbatim>\<open>/tmp\<close>; nothing else exists and nothing has
  been printed. \<open>demo_lib\<close> is one choice of the library parameters, with the recursion
  limit CPython 3.11 leaves \<^verbatim>\<open>load_route_json\<close> when the script is run as a program: 992
  nested containers.
\<close>

definition demo_lib :: pylib where
  "demo_lib = \<lparr>parse_float = (\<lambda>s. s), str_compound = (\<lambda>v. ''?''), flushed = (\<lambda>s. []),
      recursion_room = 990\<rparr>"

definition demo_file :: string where
  "demo_file = ''/proj/scripts/split_route_gu_wan_scenes.py''"

definition demo_world :: "string \<Rightarrow> world" where
  "demo_world route =
    \<lparr>dirs = {[''proj''], [''proj'', ''scripts''], [''proj'', ''data''], [''tmp'']},
     files = [[''proj'', ''data'', ''route_gu_wan.json''] \<mapsto> route],
     cwd = [''proj''],
     stdout = []\<rparr>"

text \<open>Route documents: two scenes with an identifier and one without; the same identifier
  twice; and a third identifier whose path names the file of the first two.\<close>

definition route_mixed :: string where
  "route_mixed = ''{\"scenes\": [{\"scene_id\": \"s1\", \"text\": \"hello\"}, {\"text\": \"no id\"}, {\"scene_id\": \"s2\"}]}''"

definition route_twice :: string where
  "route_twice = ''{\"scenes\": [{\"scene_id\": \"s1\", \"text\": \"a\"}, {\"scene_id\": \"s1\", \"text\": \"b\"}]}''"

definition route_alias :: string where
  "route_alias = ''{\"scenes\": [{\"scene_id\": \"s1\", \"text\": \"a\"}, {\"scene_id\": \"s1\", \"text\": \"b\"}, {\"scene_id\": \"./s1\", \"text\": \"c\"}]}''"




text \<open>The nesting depth of a value: the number of containers around its innermost part.\<close>

fun depth :: "json \<Rightarrow> nat"
  and depth_list :: "json list \<Rightarrow> nat"
  and depth_dict :: "(string \<times> json) list \<Rightarrow> nat"
where
  "depth (JArr xs) = Suc (depth_list xs)"
| "depth (JObj kvs) = Suc (depth_dict kvs)"
| "depth JNull = 0"
| "depth (JBool b) = 0"
| "depth (JInt i) = 0"
| "depth (JFloat r) = 0"
| "depth (JStr s) = 0"
| "depth_list [] = 0"
| "depth_list (x # xs) = max (depth x) (depth_list xs)"
| "depth_dict [] = 0"
| "depth_dict (kv # kvs) = max (depth (snd kv)) (depth_dict kvs)"

text \<open>The strings of a value are UTF-8: what holds of every value \<^verbatim>\<open>json.load\<close> returns for a
  text without escaped lone surrogates.\<close>

fun utf8_json :: "json \<Rightarrow> bool"
  and utf8_list :: "json list \<Rightarrow> bool"
  and utf8_dict :: "(string \<times> json) list \<Rightarrow> bool"
where
  "utf8_json (JStr s) = valid_utf8 s"
| "utf8_json (JFloat r) = valid_utf8 r"
| "utf8_json (JArr xs) = utf8_list xs"
| "utf8_json (JObj kvs) = utf8_dict kvs"
| "utf8_json JNull = True"
| "utf8_json (JBool b) = True"
| "utf8_json (JInt i) = True"
| "utf8_list [] = True"
| "utf8_list (x # xs) = (utf8_json x \<and> utf8_list xs)"
| "utf8_dict [] = True"
| "utf8_dict (kv # kvs) = (valid_utf8 (fst kv) \<and> utf8_json (snd kv) \<and> utf8_dict kvs)"

text \<open>A scene with a value of every kind: a string with non-ASCII characters (the UTF-8
  bytes of U+4F60 and U+597D), a quote and a line break, numbers, constants, and nested
  collections.\<close>

definition demo_scene :: json where
  "demo_scene =
    JObj [(''scene_id'', JStr ''s1''),
          (''text'', JStr ([CHR 0xE4, CHR 0xBD, CHR 0xA0, CHR 0xE5, CHR 0xA5, CHR 0xBD]
                          @ '' say '' @ [CHR 0x22] @ ''hi'' @ [CHR 0x22, CHR 0x0A])),
          (''order'', JInt (- 12)),
          (''volume'', JFloat ''0.5''),
          (''choices'', JArr [JObj [(''to'', JStr ''s2''), (''hidden'', JBool False)], JArr [], JNull]),
          (''flags'', JObj [])]"

text \<open>The file Python writes for \<open>demo_scene\<close>, line by line.\<close>

definition demo_scene_file :: string where
  "demo_scene_file =
    concat (map (\<lambda>l. l @ [CHR 0x0A])
      [''{'',
       ''    \"scene_id\": \"s1\",'',
       ''    \"text\": \"'' @ [CHR 0xE4, CHR 0xBD, CHR 0xA0, CHR 0xE5, CHR 0xA5, CHR 0xBD]
          @ '' say '' @ [CHR 0x5C] @ ''\"hi'' @ [CHR 0x5C] @ ''\"'' @ [CHR 0x5C] @ ''n\",'',
       ''    \"order\": -12,'',
       ''    \"volume\": 0.5,'',
       ''    \"choices\": ['',
       ''        {'',
       ''            \"to\": \"s2\",'',
       ''            \"hidden\": false'',
       ''        },'',
       ''        [],'',
       ''        null'',
       ''    ],'',
       ''    \"flags\": {}'',
       ''}''])"



section \<open>Lemmas about the file system and the loop\<close>

lemma makedirs_walk_frame:
  "makedirs_walk w cur cs = (r, w') \<Longrightarrow>
     files w' = files w \<and> cwd w' = cwd w \<and> stdout w' = stdout w \<and> dirs w \<subseteq> dirs w'"
proof (induction w cur cs rule: makedirs_walk.induct)
  case (1 w cur)
  then show ?case by simp
next
  case (2 w cur c cs)
  show ?case
  proof (cases "c = [] \<or> c = ''.''")
    case True
    with 2 show ?thesis by simp
  next
    case n1: False
    show ?thesis
    proof (cases "c = ''..''")
      case True
      with 2 n1 show ?thesis by simp
    next
      case n2: False
      show ?thesis
      proof (cases "CHR 0x00 \<in> set c")
        case True
        with 2 n1 n2 show ?thesis by simp
      next
        case n3: False
        show ?thesis
        proof (cases "is_dir w (cur @ [c])")
          case True
          with 2 n1 n2 n3 show ?thesis by simp
        next
          case n4: False
          show ?thesis
          proof (cases "files w (cur @ [c]) \<noteq> None")
            case True
            with 2 n1 n2 n3 n4 show ?thesis by auto
          next
            case n5: False
            let ?w2 = "w\<lparr>dirs := insert (cur @ [c]) (dirs w)\<rparr>"
            have step: "makedirs_walk ?w2 (cur @ [c]) cs = (r, w')"
              using "2.prems"(1) n1 n2 n3 n4 n5 by simp
            have "files w' = files ?w2 \<and> cwd w' = cwd ?w2 \<and> stdout w' = stdout ?w2 \<and> dirs ?w2 \<subseteq> dirs w'"
              using "2.IH"(4) n1 n2 n3 n4 n5 step by blast
            then show ?thesis by auto
          qed
        qed
      qed
    qed
  qed
qed


lemma makedirs_frame:
  "makedirs w name = (r, w') \<Longrightarrow>
     files w' = files w \<and> cwd w' = cwd w \<and> stdout w' = stdout w \<and> dirs w \<subseteq> dirs w'"
  unfolding makedirs_def
  by (cases "name = []") (simp_all add: makedirs_walk_frame)

lemma makedirs_walk_again:
  "makedirs_walk w cur cs = (Inr u, w1) \<Longrightarrow> dirs wb = dirs w1 \<Longrightarrow>
     makedirs_walk wb cur cs = (Inr (), wb)"
proof (induction w cur cs arbitrary: wb rule: makedirs_walk.induct)
  case (1 w cur)
  then show ?case by simp
next
  case (2 w cur c cs)
  show ?case
  proof (cases "c = [] \<or> c = ''.''")
    case True
    with 2 show ?thesis by simp
  next
    case n1: False
    show ?thesis
    proof (cases "c = ''..''")
      case True
      with 2 n1 show ?thesis by simp
    next
      case n2: False
      show ?thesis
      proof (cases "CHR 0x00 \<in> set c")
        case True
        with 2 n1 n2 show ?thesis by simp
      next
        case n3: False
        have sub: "dirs w \<subseteq> dirs w1"
          using makedirs_walk_frame [OF "2.prems"(1)] by simp
        show ?thesis
        proof (cases "is_dir w (cur @ [c])")
          case True
          then have "is_dir wb (cur @ [c])"
            using sub "2.prems"(2) by (auto simp: is_dir_def)
          moreover have "makedirs_walk wb (cur @ [c]) cs = (Inr (), wb)"
            using "2.IH"(3) "2.prems" n1 n2 n3 True by simp
          ultimately show ?thesis using n1 n2 n3 by simp
        next
          case n4: False
          show ?thesis
          proof (cases "files w (cur @ [c]) \<noteq> None")
            case True
            with "2.prems" n1 n2 n3 n4 show ?thesis by simp
          next
            case n5: False
            let ?w2 = "w\<lparr>dirs := insert (cur @ [c]) (dirs w)\<rparr>"
            have step: "makedirs_walk ?w2 (cur @ [c]) cs = (Inr u, w1)"
              using "2.prems"(1) n1 n2 n3 n4 n5 by simp
            have "dirs ?w2 \<subseteq> dirs w1"
              using makedirs_walk_frame [OF step] by simp
            then have "is_dir wb (cur @ [c])"
              using "2.prems"(2) by (auto simp: is_dir_def)
            moreover have "makedirs_walk wb (cur @ [c]) cs = (Inr (), wb)"
              using "2.IH"(4) n1 n2 n3 n4 n5 step "2.prems"(2) by blast
            ultimately show ?thesis using n1 n2 n3 by simp
          qed
        qed
      qed
    qed
  qed
qed

lemma makedirs_again:
  assumes "makedirs w name = (Inr u, w1)" and "dirs wb = dirs w1" and "cwd wb = cwd w"
  shows "makedirs wb name = (Inr (), wb)"
proof -
  have ne: "name \<noteq> []"
    using assms(1) by (auto simp: makedirs_def)
  then have "makedirs_walk w (start_dir w name) (split_sep name) = (Inr u, w1)"
    using assms(1) by (simp add: makedirs_def)
  then have "makedirs_walk wb (start_dir w name) (split_sep name) = (Inr (), wb)"
    using assms(2) by (rule makedirs_walk_again)
  moreover have "start_dir wb name = start_dir w name"
    using assms(3) by (simp add: start_dir_def)
  ultimately show ?thesis using ne by (simp add: makedirs_def)
qed

lemma walk_cong:
  "walk w cur cs = Inr d \<Longrightarrow> dirs wb = dirs w \<Longrightarrow> walk wb cur cs = Inr d"
proof (induction w cur cs rule: walk.induct)
  case (1 w cur)
  then show ?case by simp
next
  case (2 w cur c cs)
  have d: "is_dir wb (cur @ [c]) = is_dir w (cur @ [c])"
    using "2.prems"(2) by (simp add: is_dir_def)
  show ?case
  proof (cases "c = [] \<or> c = ''.''")
    case True
    with 2 show ?thesis by simp
  next
    case n1: False
    show ?thesis
    proof (cases "c = ''..''")
      case True
      with 2 n1 show ?thesis by simp
    next
      case n2: False
      show ?thesis
      proof (cases "is_dir w (cur @ [c])")
        case True
        with 2 n1 n2 d show ?thesis by simp
      next
        case False
        with "2.prems" n1 n2 show ?thesis by (simp split: if_splits)
      qed
    qed
  qed
qed

lemma locate_cong:
  assumes "locate w p = Inr loc" and "dirs wb = dirs w" and "cwd wb = cwd w"
  shows "locate wb p = Inr loc"
proof -
  let ?name = "last (split_sep p)"
  from assms(1) have a: "CHR 0x00 \<notin> set p" "p \<noteq> []"
    by (auto simp: locate_def split: if_splits)
  from assms(1) a obtain d where d: "walk w (start_dir w p) (butlast (split_sep p)) = Inr d"
    by (cases "walk w (start_dir w p) (butlast (split_sep p))") (auto simp: locate_def)
  from assms(1) a d have n: "\<not> (?name = [] \<or> ?name = ''.'' \<or> ?name = ''..'')"
      "\<not> is_dir w (d @ [?name])" "loc = d @ [?name]"
    by (auto simp: locate_def Let_def split: if_splits)
  have s: "start_dir wb p = start_dir w p"
    using assms(3) by (simp add: start_dir_def)
  have d': "walk wb (start_dir wb p) (butlast (split_sep p)) = Inr d"
    using walk_cong [OF d assms(2)] s by simp
  have "\<not> is_dir wb (d @ [?name])"
    using n(2) assms(2) by (simp add: is_dir_def)
  then show ?thesis
    using a d' n by (simp add: locate_def Let_def)
qed


lemma path_join_json_nonempty: "path_join dir (x @ ''.json'') \<noteq> []"
  by (simp add: path_join_def)

lemma has_surrogate_newline: "\<not> has_surrogate [CHR 0x0A]"
  by simp

lemma write_scene_file_unfold:
  "write_scene_file lib dir scene w =
    (case scene of
       JObj d \<Rightarrow>
         if \<not> has_id scene then (Inr [], w)
         else
           (case makedirs w dir of
              (Inl e, w1) \<Rightarrow> (Inl e, w1)
            | (Inr u, w1) \<Rightarrow>
                (case locate w1 (scene_path lib dir scene) of
                   Inl e \<Rightarrow> (Inl e, w1)
                 | Inr loc \<Rightarrow>
                     if has_surrogate (json_dumps scene)
                     then (Inl UnicodeEncodeError,
                           w1\<lparr>files := (files w1)(loc \<mapsto> flushed lib (json_dumps scene))\<rparr>)
                     else (Inr (scene_path lib dir scene),
                           w1\<lparr>files := (files w1)(loc \<mapsto> scene_text scene)\<rparr>)))
     | _ \<Rightarrow> (Inl AttributeError, w))"
proof (cases scene)
  case (JObj d)
  show ?thesis
  proof (cases "has_id scene")
    case False
    then show ?thesis
      using JObj by (simp add: write_scene_file_def py_get_def has_id_def split: option.splits)
  next
    case True
    then obtain sid where sid: "map_of d ''scene_id'' = Some sid" "truthy sid"
      using JObj by (auto simp: has_id_def split: option.splits)
    obtain r w1 where m: "makedirs w dir = (r, w1)"
      by (cases "makedirs w dir") auto
    show ?thesis
    proof (cases r)
      case (Inl e)
      then show ?thesis
        using JObj True sid m by (simp add: write_scene_file_def py_get_def)
    next
      case (Inr u)
      have p: "scene_path lib dir scene = path_join dir (py_str lib sid @ ''.json'')"
        using JObj sid by (simp add: scene_path_def py_get_def)
      show ?thesis
      proof (cases "locate w1 (scene_path lib dir scene)")
        case (Inl e)
        then show ?thesis
          using JObj True sid m Inr p
          by (simp add: write_scene_file_def py_get_def open_w_def)
      next
        case loc: (Inr loc)
        then show ?thesis
          using JObj True sid m Inr p
          by (simp add: write_scene_file_def py_get_def open_w_def file_write_def
              file_content_def scene_text_def)
      qed
    qed
  qed
qed (simp_all add: write_scene_file_def py_get_def)


lemma scene_loc_cong:
  assumes "dirs wb = dirs w" and "cwd wb = cwd w"
  shows "scene_loc lib wb dir s = scene_loc lib w dir s"
proof (cases "locate w (scene_path lib dir s)")
  case (Inr loc)
  then have "locate wb (scene_path lib dir s) = Inr loc"
    using assms by (rule locate_cong)
  with Inr show ?thesis by (simp add: scene_loc_def)
next
  case (Inl e)
  have "\<exists>e'. locate wb (scene_path lib dir s) = Inl e'"
  proof (cases "locate wb (scene_path lib dir s)")
    case (Inr loc)
    then have "locate w (scene_path lib dir s) = Inr loc"
      using assms by (simp add: locate_cong [where w = wb and wb = w])
    with Inl show ?thesis by simp
  qed simp
  with Inl show ?thesis by (auto simp: scene_loc_def)
qed

lemma scene_path_nonempty: "has_id s \<Longrightarrow> scene_path lib dir s \<noteq> []"
  by (cases s) (simp_all add: has_id_def scene_path_def py_get_def path_join_json_nonempty
      split: option.splits)

lemma main_loop_no_ids:
  "main_loop lib dir scenes acc w = (Inr ps, w') \<Longrightarrow> filter has_id scenes = [] \<Longrightarrow>
     ps = acc \<and> w' = w"
proof (induction scenes arbitrary: acc w)
  case Nil
  then show ?case by simp
next
  case (Cons s scenes)
  from Cons.prems(2) have nid: "\<not> has_id s" and rest: "filter has_id scenes = []"
    by (auto split: if_splits)
  show ?case
  proof (cases s)
    case (JObj d)
    then have "write_scene_file lib dir s w = (Inr [], w)"
      using nid by (simp add: write_scene_file_unfold)
    then have "main_loop lib dir scenes acc w = (Inr ps, w')"
      using Cons.prems(1) by simp
    then show ?thesis using Cons.IH rest by blast
  qed (use Cons.prems(1) in \<open>simp_all add: write_scene_file_unfold\<close>)
qed

lemma write_scene_file_in_place:
  assumes m: "makedirs w dir = (Inr (), w)"
    and ok: "write_scene_file lib dir s w = (Inr p, wa)"
    and hid: "has_id s"
    and d: "dirs wb = dirs w" and c: "cwd wb = cwd w"
  shows "p = scene_path lib dir s
     \<and> locate w p = Inr (scene_loc lib w dir s)
     \<and> wa = w\<lparr>files := (files w)(scene_loc lib w dir s \<mapsto> scene_text s)\<rparr>
     \<and> write_scene_file lib dir s wb
         = (Inr p, wb\<lparr>files := (files wb)(scene_loc lib w dir s \<mapsto> scene_text s)\<rparr>)"
proof -
  from ok hid obtain dd where s: "s = JObj dd"
    by (cases s) (simp_all add: write_scene_file_unfold)
  from ok hid s m obtain loc where loc: "locate w (scene_path lib dir s) = Inr loc"
    by (cases "locate w (scene_path lib dir s)") (simp_all add: write_scene_file_unfold)
  from ok hid s m loc have ns: "\<not> has_surrogate (json_dumps s)"
    by (auto simp add: write_scene_file_unfold split: if_splits)
  have sl: "scene_loc lib w dir s = loc"
    using loc by (simp add: scene_loc_def)
  have mb: "makedirs wb dir = (Inr (), wb)"
    using makedirs_again [OF m d c] .
  have lb: "locate wb (scene_path lib dir s) = Inr loc"
    using locate_cong [OF loc d c] .
  from ok hid s m loc ns have "p = scene_path lib dir s"
      "wa = w\<lparr>files := (files w)(loc \<mapsto> scene_text s)\<rparr>"
    by (simp_all add: write_scene_file_unfold)
  moreover have "write_scene_file lib dir s wb
      = (Inr (scene_path lib dir s), wb\<lparr>files := (files wb)(loc \<mapsto> scene_text s)\<rparr>)"
    using hid s mb lb ns by (simp add: write_scene_file_unfold)
  ultimately show ?thesis using loc sl by simp
qed

lemma main_loop_in_place:
  assumes "makedirs w dir = (Inr (), w)"
    and "main_loop lib dir scenes acc w = (Inr ps, w')"
    and "dirs wb = dirs w" and "cwd wb = cwd w"
  shows "main_loop lib dir scenes acc wb =
     (Inr (acc @ map (scene_path lib dir) (filter has_id scenes)),
      wb\<lparr>files := put_scenes lib w dir (files wb) scenes\<rparr>)"
  using assms
proof (induction scenes arbitrary: acc w wb)
  case Nil
  then show ?case by (simp add: put_scenes_def)
next
  case (Cons s scenes)
  obtain r wa where ws: "write_scene_file lib dir s w = (r, wa)"
    by (cases "write_scene_file lib dir s w") auto
  from Cons.prems(2) ws obtain p where r: "r = Inr p"
    by (cases r) auto
  show ?case
  proof (cases "has_id s")
    case False
    from ws r obtain dd where s: "s = JObj dd"
      by (cases s) (simp_all add: write_scene_file_unfold)
    have a: "write_scene_file lib dir s w = (Inr [], w)"
        "write_scene_file lib dir s wb = (Inr [], wb)"
      using s False by (simp_all add: write_scene_file_unfold)
    then have "main_loop lib dir scenes acc w = (Inr ps, w')"
      using Cons.prems(2) by simp
    from Cons.IH [OF Cons.prems(1) this Cons.prems(3,4)] show ?thesis
      using a False by (simp add: put_scenes_def)
  next
    case True
    note wip = write_scene_file_in_place [OF Cons.prems(1) ws [unfolded r] True Cons.prems(3,4)]
    let ?loc = "scene_loc lib w dir s"
    let ?wa = "w\<lparr>files := (files w)(?loc \<mapsto> scene_text s)\<rparr>"
    let ?wb2 = "wb\<lparr>files := (files wb)(?loc \<mapsto> scene_text s)\<rparr>"
    have p: "p = scene_path lib dir s" and wa: "wa = ?wa"
      and wsb: "write_scene_file lib dir s wb = (Inr p, ?wb2)"
      using wip by simp_all
    have pne: "p \<noteq> []"
      using p scene_path_nonempty [OF True] by simp
    have loop: "main_loop lib dir scenes (acc @ [p]) ?wa = (Inr ps, w')"
      using Cons.prems(2) ws r wa pne by simp
    have ma: "makedirs ?wa dir = (Inr (), ?wa)"
      by (rule makedirs_again [OF Cons.prems(1)]) simp_all
    have ih: "main_loop lib dir scenes (acc @ [p]) ?wb2 =
       (Inr ((acc @ [p]) @ map (scene_path lib dir) (filter has_id scenes)),
        ?wb2\<lparr>files := put_scenes lib ?wa dir (files ?wb2) scenes\<rparr>)"
      by (rule Cons.IH [OF ma loop]) (simp_all add: Cons.prems(3,4))
    have sl: "put_scene lib ?wa dir = put_scene lib w dir"
      by (intro ext) (simp add: put_scene_def scene_loc_cong [of ?wa w])
    have "put_scenes lib ?wa dir (files ?wb2) scenes = put_scenes lib w dir (files wb) (s # scenes)"
      using True by (simp add: put_scenes_def sl) (simp add: put_scene_def)
    then show ?thesis
      using ih wsb p pne True by simp
  qed
qed

lemma main_loop_first:
  "main_loop lib dir scenes acc w = (Inr ps, w') \<Longrightarrow> filter has_id scenes \<noteq> [] \<Longrightarrow>
     fst (makedirs w dir) = Inr ()
     \<and> main_loop lib dir scenes acc (snd (makedirs w dir)) = (Inr ps, w')"
proof (induction scenes arbitrary: acc w)
  case Nil
  then show ?case by simp
next
  case (Cons s scenes)
  obtain r wa where ws: "write_scene_file lib dir s w = (r, wa)"
    by (cases "write_scene_file lib dir s w") auto
  from Cons.prems(1) ws obtain p where r: "r = Inr p"
    by (cases r) auto
  from ws r obtain dd where s: "s = JObj dd"
    by (cases s) (simp_all add: write_scene_file_unfold)
  show ?case
  proof (cases "has_id s")
    case False
    then have a: "\<And>v. write_scene_file lib dir s v = (Inr [], v)"
      using s by (simp add: write_scene_file_unfold)
    have "main_loop lib dir scenes acc w = (Inr ps, w')"
      using Cons.prems(1) a by simp
    moreover have "filter has_id scenes \<noteq> []"
      using Cons.prems(2) False by simp
    ultimately have "fst (makedirs w dir) = Inr ()
        \<and> main_loop lib dir scenes acc (snd (makedirs w dir)) = (Inr ps, w')"
      by (rule Cons.IH)
    then show ?thesis using a by simp
  next
    case True
    obtain r1 w1 where m: "makedirs w dir = (r1, w1)"
      by (cases "makedirs w dir") auto
    from ws r True s m have r1: "r1 = Inr ()"
      by (cases r1) (simp_all add: write_scene_file_unfold)
    have m1: "makedirs w1 dir = (Inr (), w1)"
      using makedirs_again [OF m [unfolded r1], of w1] makedirs_frame [OF m] by simp
    have "write_scene_file lib dir s w1 = write_scene_file lib dir s w"
      using True s m r1 m1 by (simp add: write_scene_file_unfold)
    then show ?thesis
      using Cons.prems(1) m r1 by simp
  qed
qed

lemma main_loop_no_ids_any:
  "main_loop lib dir scenes acc w = (Inr ps, w') \<Longrightarrow> filter has_id scenes = [] \<Longrightarrow>
     main_loop lib dir scenes acc wb = (Inr acc, wb)"
proof (induction scenes arbitrary: acc w)
  case Nil
  then show ?case by simp
next
  case (Cons s scenes)
  from Cons.prems(2) have nid: "\<not> has_id s" and rest: "filter has_id scenes = []"
    by (auto split: if_splits)
  show ?case
  proof (cases s)
    case (JObj d)
    then have a: "\<And>v. write_scene_file lib dir s v = (Inr [], v)"
      using nid by (simp add: write_scene_file_unfold)
    then have "main_loop lib dir scenes acc w = (Inr ps, w')"
      using Cons.prems(1) by simp
    then have "main_loop lib dir scenes acc wb = (Inr acc, wb)"
      using rest by (rule Cons.IH)
    then show ?thesis using a by simp
  qed (use Cons.prems(1) in \<open>simp_all add: write_scene_file_unfold\<close>)
qed

subsection \<open>The files after a list of writes\<close>

lemma put_scenes_Nil: "put_scenes lib w dir f [] = f"
  by (simp add: put_scenes_def)

lemma put_scenes_snoc:
  "put_scenes lib w dir f (scenes @ [s]) =
     (if has_id s then put_scene lib w dir (put_scenes lib w dir f scenes) s
      else put_scenes lib w dir f scenes)"
  by (simp add: put_scenes_def)

lemma put_scenes_apply:
  "put_scenes lib w dir f scenes loc =
     (if writers lib w dir scenes loc = [] then f loc
      else Some (scene_text (last (writers lib w dir scenes loc))))"
proof (induction scenes rule: rev_induct)
  case Nil
  then show ?case by (simp add: put_scenes_Nil writers_def)
next
  case (snoc s scenes)
  then show ?case
    by (simp add: put_scenes_snoc writers_def put_scene_def)
qed

lemma put_scenes_idem:
  "put_scenes lib w dir (put_scenes lib w dir f scenes) scenes = put_scenes lib w dir f scenes"
  by (rule ext) (simp add: put_scenes_apply)

lemma put_scenes_dom:
  "dom (put_scenes lib w dir f scenes) = dom f \<union> scene_loc lib w dir ` set (filter has_id scenes)"
proof (induction scenes rule: rev_induct)
  case Nil
  then show ?case by (simp add: put_scenes_Nil)
next
  case (snoc s scenes)
  then show ?case
    by (auto simp: put_scenes_snoc put_scene_def)
qed

lemma put_scenes_cong:
  "dirs wb = dirs w \<Longrightarrow> cwd wb = cwd w \<Longrightarrow> put_scenes lib wb dir = put_scenes lib w dir"
  by (intro ext) (simp add: put_scenes_def put_scene_def [abs_def] scene_loc_cong [of wb w])


lemma main_loop_written:
  assumes "makedirs w dir = (Inr (), w)"
    and "main_loop lib dir scenes acc w = (Inr ps, w')"
    and "s \<in> set scenes" and "has_id s"
  shows "locate w (scene_path lib dir s) = Inr (scene_loc lib w dir s)
     \<and> \<not> has_surrogate (json_dumps s)"
  using assms
proof (induction scenes arbitrary: acc w)
  case Nil
  then show ?case by simp
next
  case (Cons t scenes)
  obtain r wa where ws: "write_scene_file lib dir t w = (r, wa)"
    by (cases "write_scene_file lib dir t w") auto
  from Cons.prems(2) ws obtain p where r: "r = Inr p"
    by (cases r) auto
  have loop: "main_loop lib dir scenes (if p \<noteq> [] then acc @ [p] else acc) wa = (Inr ps, w')"
    using Cons.prems(2) ws r by simp
  have same: "dirs wa = dirs w \<and> cwd wa = cwd w \<and> makedirs wa dir = (Inr (), wa)"
  proof (cases "has_id t")
    case True
    from write_scene_file_in_place [OF Cons.prems(1) ws [unfolded r] True refl refl]
    have wa: "wa = w\<lparr>files := (files w)(scene_loc lib w dir t \<mapsto> scene_text t)\<rparr>" by simp
    have "makedirs wa dir = (Inr (), wa)"
      unfolding wa by (rule makedirs_again [OF Cons.prems(1)]) simp_all
    then show ?thesis by (simp add: wa)
  next
    case False
    from ws r obtain dd where "t = JObj dd"
      by (cases t) (simp_all add: write_scene_file_unfold)
    then have "wa = w"
      using ws False by (simp add: write_scene_file_unfold)
    then show ?thesis using Cons.prems(1) by simp
  qed
  show ?case
  proof (cases "s = t")
    case True
    from ws r Cons.prems(1,4) True obtain dd where t: "t = JObj dd"
      by (cases t) (simp_all add: write_scene_file_unfold)
    have "\<not> has_surrogate (json_dumps s)"
    proof
      assume "has_surrogate (json_dumps s)"
      then show False
        using ws r Cons.prems(1,4) True t
        by (simp add: write_scene_file_unfold split: sum.splits)
    qed
    moreover have "locate w (scene_path lib dir t) = Inr (scene_loc lib w dir t)"
      using write_scene_file_in_place [OF Cons.prems(1) ws [unfolded r] _ refl refl]
        Cons.prems(4) True by blast
    ultimately show ?thesis using True by simp
  next
    case False
    then have "s \<in> set scenes" using Cons.prems(3) by simp
    from Cons.IH [OF _ loop this Cons.prems(4)] same
    have "locate wa (scene_path lib dir s) = Inr (scene_loc lib wa dir s)
        \<and> \<not> has_surrogate (json_dumps s)" by simp
    moreover have "scene_loc lib wa dir s = scene_loc lib w dir s"
      by (rule scene_loc_cong) (simp_all add: same)
    ultimately have la: "locate wa (scene_path lib dir s) = Inr (scene_loc lib w dir s)"
        and ns: "\<not> has_surrogate (json_dumps s)"
      by simp_all
    from la have "locate w (scene_path lib dir s) = Inr (scene_loc lib w dir s)"
      by (rule locate_cong) (simp_all add: same)
    then show ?thesis using ns by simp
  qed
qed

lemma main_loop_run:
  assumes run: "main_loop lib dir scenes acc w = (Inr ps, w')"
  shows "ps = acc @ map (scene_path lib dir) (filter has_id scenes)"
    and "w' = (prepared w dir scenes)\<lparr>files := put_scenes lib w' dir (files w) scenes\<rparr>"
    and "dirs w' = dirs (prepared w dir scenes)"
    and "dirs w \<subseteq> dirs w'" and "cwd w' = cwd w" and "stdout w' = stdout w"
    and "\<And>s. s \<in> set scenes \<Longrightarrow> has_id s \<Longrightarrow>
           locate w' (scene_path lib dir s) = Inr (scene_loc lib w' dir s)
           \<and> \<not> has_surrogate (json_dumps s)"
    and "\<And>wb. dirs wb = dirs w' \<Longrightarrow> cwd wb = cwd w' \<Longrightarrow>
           main_loop lib dir scenes acc wb
             = (Inr ps, wb\<lparr>files := put_scenes lib w' dir (files wb) scenes\<rparr>)"
proof -
  let ?w1 = "prepared w dir scenes"
  have key: "ps = acc @ map (scene_path lib dir) (filter has_id scenes)
      \<and> w' = ?w1\<lparr>files := put_scenes lib ?w1 dir (files ?w1) scenes\<rparr>
      \<and> files ?w1 = files w \<and> cwd ?w1 = cwd w \<and> stdout ?w1 = stdout w \<and> dirs w \<subseteq> dirs ?w1
      \<and> (\<forall>s. s \<in> set scenes \<longrightarrow> has_id s \<longrightarrow>
            locate ?w1 (scene_path lib dir s) = Inr (scene_loc lib ?w1 dir s)
            \<and> \<not> has_surrogate (json_dumps s))
      \<and> (\<forall>wb. dirs wb = dirs ?w1 \<longrightarrow> cwd wb = cwd ?w1 \<longrightarrow>
            main_loop lib dir scenes acc wb
              = (Inr ps, wb\<lparr>files := put_scenes lib ?w1 dir (files wb) scenes\<rparr>))"
  proof (cases "filter has_id scenes = []")
    case True
    have "ps = acc" "w' = w"
      using main_loop_no_ids [OF run True] by simp_all
    moreover have "\<And>wb. main_loop lib dir scenes acc wb = (Inr acc, wb)"
      using main_loop_no_ids_any [OF run True] .
    moreover have "\<And>f v. put_scenes lib v dir f scenes = f"
      using True by (simp add: put_scenes_def)
    moreover have "\<And>s. s \<in> set scenes \<Longrightarrow> \<not> has_id s"
      using True by (auto simp: filter_empty_conv)
    ultimately show ?thesis
      using True by (auto simp: prepared_def)
  next
    case False
    obtain r w1 where m: "makedirs w dir = (r, w1)"
      by (cases "makedirs w dir") auto
    from main_loop_first [OF run False] m
    have r: "r = Inr ()" and run1: "main_loop lib dir scenes acc w1 = (Inr ps, w')"
      by simp_all
    have w1: "?w1 = w1"
      using False m by (simp add: prepared_def)
    have fr: "files w1 = files w" "cwd w1 = cwd w" "stdout w1 = stdout w" "dirs w \<subseteq> dirs w1"
      using makedirs_frame [OF m] by simp_all
    have m1: "makedirs w1 dir = (Inr (), w1)"
      using makedirs_again [OF m [unfolded r], of w1] fr by simp
    have a: "\<And>wb. dirs wb = dirs w1 \<Longrightarrow> cwd wb = cwd w1 \<Longrightarrow>
        main_loop lib dir scenes acc wb =
          (Inr (acc @ map (scene_path lib dir) (filter has_id scenes)),
           wb\<lparr>files := put_scenes lib w1 dir (files wb) scenes\<rparr>)"
      using main_loop_in_place [OF m1 run1] by simp
    from a [of w1] run1
    have b: "ps = acc @ map (scene_path lib dir) (filter has_id scenes)"
        "w' = w1\<lparr>files := put_scenes lib w1 dir (files w1) scenes\<rparr>"
      by simp_all
    have c: "\<forall>s. s \<in> set scenes \<longrightarrow> has_id s \<longrightarrow>
        locate w1 (scene_path lib dir s) = Inr (scene_loc lib w1 dir s)
        \<and> \<not> has_surrogate (json_dumps s)"
      using main_loop_written [OF m1 run1] by blast
    show ?thesis
      unfolding w1 using a b c fr by simp
  qed
  have same: "dirs w' = dirs ?w1" "cwd w' = cwd ?w1"
    using key by (metis (no_types, lifting) world.select_convs world.surjective world.update_convs)+
  have ps: "put_scenes lib w' dir = put_scenes lib ?w1 dir"
    using same by (rule put_scenes_cong)
  have sl: "\<And>s. scene_loc lib w' dir s = scene_loc lib ?w1 dir s"
    using same by (rule scene_loc_cong)
  show "ps = acc @ map (scene_path lib dir) (filter has_id scenes)"
    using key by simp
  show "w' = ?w1\<lparr>files := put_scenes lib w' dir (files w) scenes\<rparr>"
    using key ps by simp
  show "dirs w' = dirs ?w1" by (rule same)
  show "dirs w \<subseteq> dirs w'" using key same by simp
  show "cwd w' = cwd w" using key same by simp
  show "stdout w' = stdout w"
    using key by (metis (no_types, lifting) world.select_convs world.surjective world.update_convs)
  show "locate w' (scene_path lib dir s) = Inr (scene_loc lib w' dir s)
           \<and> \<not> has_surrogate (json_dumps s)" if "s \<in> set scenes" "has_id s" for s
  proof -
    have l1: "locate ?w1 (scene_path lib dir s) = Inr (scene_loc lib ?w1 dir s)"
        and ns: "\<not> has_surrogate (json_dumps s)"
      using key that by simp_all
    from l1 have "locate w' (scene_path lib dir s) = Inr (scene_loc lib ?w1 dir s)"
      by (rule locate_cong) (simp_all add: same)
    then show ?thesis using ns sl by simp
  qed
  show "\<And>wb. dirs wb = dirs w' \<Longrightarrow> cwd wb = cwd w' \<Longrightarrow>
           main_loop lib dir scenes acc wb
             = (Inr ps, wb\<lparr>files := put_scenes lib w' dir (files wb) scenes\<rparr>)"
    using key same ps by simp
qed

section \<open>Lemmas about the encoder and the decoder\<close>

lemma is_ws_simps [simp]:
  "is_ws (CHR '' '')" "is_ws (CHR 0x0A)"
  "\<not> is_ws (CHR 0x22)" "\<not> is_ws (CHR '','')" "\<not> is_ws (CHR '']'')" "\<not> is_ws (CHR ''}'')"
  "\<not> is_ws (CHR '':'')" "\<not> is_ws (CHR ''['')" "\<not> is_ws (CHR ''{'')"
  by (simp_all add: is_ws_def)

lemma skip_ws_newline_indent: "skip_ws (newline_indent lvl @ s) = skip_ws s"
  by (simp add: skip_ws_def newline_indent_def dropWhile_append)

lemma hexval_digit_char: "d < 16 \<Longrightarrow> hexval (digit_char d) = Some d"
proof -
  assume "d < 16"
  then have "d \<in> {0, 1, 2, 3, 4, 5, 6, 7, 8, 9, 10, 11, 12, 13, 14, 15}"
    by simp arith
  then show ?thesis
    by (auto simp: hexval_def digit_char_def)
qed

lemma char_of_of_char_nat: "char_of (of_char c :: nat) = c"
  by simp

lemma utf8_encode_small: "(of_char c :: nat) < 128 \<Longrightarrow> utf8_encode (of_char c) = [c]"
  by (simp add: utf8_encode_def)

lemma of_char_lt_256: "(of_char c :: nat) < 256"
  by (cases c) (simp)


subsection \<open>Strings\<close>

lemma decode_uXXXX_control:
  assumes "n < 32"
  shows "decode_uXXXX (CHR ''0'' # CHR ''0'' # digit_char (n div 16) # digit_char (n mod 16) # t) = Some n"
proof -
  have a: "hexval (digit_char (n div 16)) = Some (n div 16)"
    using assms by (intro hexval_digit_char) arith
  have b: "hexval (digit_char (n mod 16)) = Some (n mod 16)"
    by (intro hexval_digit_char) simp
  have z: "hexval (CHR ''0'') = Some 0"
    by (simp add: hexval_def)
  show ?thesis
    by (simp add: decode_uXXXX_def a b z)
qed

lemma scanstring_escape_char:
  "scanstring (escape_char c @ t) = scan_cons [c] (scanstring t)"
proof -
  consider (bs) "c = CHR 0x5C" | (dq) "c = CHR 0x22" | (b) "c = CHR 0x08" | (f) "c = CHR 0x0C"
    | (n) "c = CHR 0x0A" | (r) "c = CHR 0x0D" | (t) "c = CHR 0x09"
    | (ctl) "c \<noteq> CHR 0x5C" "c \<noteq> CHR 0x22" "c \<noteq> CHR 0x08" "c \<noteq> CHR 0x0C" "c \<noteq> CHR 0x0A"
        "c \<noteq> CHR 0x0D" "c \<noteq> CHR 0x09" "(of_char c :: nat) < 32"
    | (plain) "c \<noteq> CHR 0x5C" "c \<noteq> CHR 0x22" "\<not> (of_char c :: nat) < 32"
    by blast
  then show ?thesis
  proof cases
    case ctl
    have e: "escape_char c = [CHR 0x5C, CHR ''u'', CHR ''0'', CHR ''0'',
        digit_char ((of_char c :: nat) div 16), digit_char ((of_char c :: nat) mod 16)]"
      using ctl by (simp add: escape_char_def)
    have u: "utf8_encode (of_char c) = [c]"
      using ctl(8) by (simp add: utf8_encode_def)
    show ?thesis
      unfolding e using ctl(8) by (simp add: decode_uXXXX_control u)
  next
    case plain
    have e: "escape_char c = [c]"
      using plain by (auto simp: escape_char_def)
    show ?thesis
      unfolding e using plain by simp
  qed (simp_all add: escape_char_def backslash_def)
qed

lemma scanstring_escaped:
  "scanstring (concat (map escape_char s) @ CHR 0x22 # rest) = Some (s, rest)"
proof (induction s)
  case Nil
  then show ?case by simp
next
  case (Cons c s)
  have "scanstring (escape_char c @ (concat (map escape_char s) @ CHR 0x22 # rest))
      = scan_cons [c] (scanstring (concat (map escape_char s) @ CHR 0x22 # rest))"
    by (rule scanstring_escape_char)
  then show ?case
    using Cons.IH by (simp add: scan_cons_def)
qed

lemma scanstring_basestring:
  "scanstring (tl (encode_basestring s) @ rest) = Some (s, rest)"
  by (simp add: encode_basestring_def scanstring_escaped)

lemma encode_basestring_hd: "encode_basestring s = CHR 0x22 # tl (encode_basestring s)"
  by (simp add: encode_basestring_def)


subsection \<open>Numbers\<close>

lemma is_digit_simps [simp]:
  "\<not> is_digit (CHR '','')" "\<not> is_digit (CHR 0x0A)" "\<not> is_digit (CHR ''-'')"
  "\<not> is_digit (CHR ''.'')" "\<not> is_digit (CHR ''e'')" "\<not> is_digit (CHR ''E'')"
  "\<not> is_digit (CHR ''+'')" "is_digit (CHR ''0'')"
  by (simp_all add: is_digit_def)

lemma delimited_simps [simp]:
  "delimited []" "delimited (CHR '','' # s)" "delimited (CHR 0x0A # s)"
  by (simp_all add: delimited_def)

lemma delimited_newline_indent [simp]: "delimited (newline_indent lvl @ s)"
  by (simp add: newline_indent_def)

lemma digits_delimited:
  assumes "delimited rest"
  shows "takeWhile is_digit (xs @ rest) = takeWhile is_digit xs"
    and "dropWhile is_digit (xs @ rest) = dropWhile is_digit xs @ rest"
proof -
  have t: "takeWhile is_digit rest = []" and d: "dropWhile is_digit rest = rest"
    using assms by (cases rest; auto simp: delimited_def)+
  show "takeWhile is_digit (xs @ rest) = takeWhile is_digit xs"
    by (induction xs) (simp_all add: t)
  show "dropWhile is_digit (xs @ rest) = dropWhile is_digit xs @ rest"
    by (induction xs) (simp_all add: d)
qed

lemma match_integer_append:
  assumes "match_integer s = Some (i, r)" and "delimited rest"
  shows "match_integer (s @ rest) = Some (i, r @ rest)"
proof (cases s)
  case Nil
  then show ?thesis using assms(1) by (simp add: match_integer_def)
next
  case (Cons c s')
  show ?thesis
  proof (cases "c = CHR ''-''")
    case True
    then show ?thesis
      using assms Cons
      by (cases s') (auto simp: match_integer_def Let_def digits_delimited split: if_splits)
  next
    case False
    then show ?thesis
      using assms Cons
      by (auto simp: match_integer_def Let_def digits_delimited split: if_splits)
  qed
qed

lemma match_integer_hd:
  assumes "match_integer s = Some (i, r)"
  shows "s \<noteq> [] \<and> (hd s = CHR ''-'' \<or> is_digit (hd s))"
proof (cases s)
  case Nil
  then show ?thesis using assms by (simp add: match_integer_def)
next
  case (Cons c s')
  then show ?thesis
    using assms
    by (cases "c = CHR ''-''") (auto simp: match_integer_def Let_def split: if_splits list.splits)
qed

lemma match_frac_append:
  assumes "delimited rest"
  shows "match_frac (s @ rest) = (fst (match_frac s), snd (match_frac s) @ rest)"
proof (cases s)
  case Nil
  then show ?thesis
    using assms by (cases rest) (auto simp: match_frac_def delimited_def split: list.splits)
next
  case s1: (Cons c s')
  show ?thesis
  proof (cases s')
    case Nil
    then show ?thesis
      using assms s1 by (cases rest) (auto simp: match_frac_def delimited_def)
  next
    case (Cons d ds)
    then show ?thesis
      using assms s1 by (simp add: match_frac_def digits_delimited)
  qed
qed

lemma match_exp_append:
  assumes "delimited rest"
  shows "match_exp (s @ rest) = (fst (match_exp s), snd (match_exp s) @ rest)"
proof (cases s)
  case Nil
  then show ?thesis
    using assms by (cases rest) (auto simp: match_exp_def delimited_def Let_def split: list.splits)
next
  case s1: (Cons c t)
  show ?thesis
  proof (cases "c = CHR ''e'' \<or> c = CHR ''E''")
    case False
    then show ?thesis using s1 by (simp add: match_exp_def)
  next
    case ce: True
    show ?thesis
    proof (cases t)
      case Nil
      then show ?thesis
        using assms s1 ce by (cases rest) (auto simp: match_exp_def Let_def delimited_def)
    next
      case t1: (Cons x t2)
      show ?thesis
      proof (cases "x = CHR ''+'' \<or> x = CHR ''-''")
        case True
        then show ?thesis
          using assms s1 ce t1
          by (cases t2; cases rest) (auto simp: match_exp_def Let_def delimited_def digits_delimited)
      next
        case False
        then show ?thesis
          using assms s1 ce t1 by (auto simp: match_exp_def Let_def digits_delimited)
      qed
    qed
  qed
qed


lemma digit_char_decimal:
  assumes "d < 10"
  shows "is_digit (digit_char d)" and "(of_char (digit_char d) :: nat) = 48 + d"
    and "(digit_char d = CHR ''0'') = (d = 0)" and "digit_char d \<noteq> CHR ''-''"
proof -
  from assms have "d \<in> {0, 1, 2, 3, 4, 5, 6, 7, 8, 9}"
    by simp arith
  then show "is_digit (digit_char d)" and "(of_char (digit_char d) :: nat) = 48 + d"
    and "(digit_char d = CHR ''0'') = (d = 0)" and "digit_char d \<noteq> CHR ''-''"
    by (auto simp: digit_char_def is_digit_def)
qed

lemma nat_repr_props:
  "nat_repr n \<noteq> [] \<and> (\<forall>c\<in>set (nat_repr n). is_digit c)
     \<and> (hd (nat_repr n) = CHR ''0'' \<longrightarrow> n = 0) \<and> digits_val (nat_repr n) = n"
proof (induction n rule: nat_repr.induct)
  case (1 n)
  show ?case
  proof (cases "n < 10")
    case True
    then have "nat_repr n = [digit_char n]"
      by (simp add: nat_repr.simps)
    then show ?thesis
      using digit_char_decimal [OF True] by (simp add: digits_val_def)
  next
    case False
    let ?q = "n div 10"
    have r: "nat_repr n = nat_repr ?q @ [digit_char (n mod 10)]"
      using False by (subst nat_repr.simps) simp
    have ih: "nat_repr ?q \<noteq> []" "\<forall>c\<in>set (nat_repr ?q). is_digit c"
        "hd (nat_repr ?q) = CHR ''0'' \<longrightarrow> ?q = 0" "digits_val (nat_repr ?q) = ?q"
      using 1 False by simp_all
    have m: "n mod 10 < 10" by simp
    have q: "?q \<noteq> 0" using False by simp
    have "digits_val (nat_repr n) = 10 * ?q + n mod 10"
      using ih(4) digit_char_decimal(2) [OF m] by (simp add: r digits_val_def)
    then show ?thesis
      using ih q digit_char_decimal(1) [OF m] by (auto simp: r)
  qed
qed

lemma nat_repr_0: "nat_repr 0 = ''0''"
  by (simp add: nat_repr.simps digit_char_def)

lemma match_integer_nat_repr: "match_integer (nat_repr n) = Some (nat_repr n, [])"
proof (cases "nat_repr n")
  case Nil
  then show ?thesis using nat_repr_props [of n] by simp
next
  case (Cons d ds)
  have dig: "is_digit d" "\<forall>c\<in>set ds. is_digit c"
    using nat_repr_props [of n] Cons by simp_all
  then have nm: "d \<noteq> CHR ''-''" by auto
  show ?thesis
  proof (cases "d = CHR ''0''")
    case True
    then have "n = 0" using nat_repr_props [of n] Cons by simp
    then show ?thesis by (simp add: nat_repr_0 match_integer_def)
  next
    case False
    have "takeWhile is_digit ds = ds" "dropWhile is_digit ds = []"
      using dig(2) by (simp_all add: takeWhile_eq_all_conv)
    then show ?thesis
      using Cons False nm dig(1) by (simp add: match_integer_def)
  qed
qed

lemma match_integer_int_repr: "match_integer (int_repr i) = Some (int_repr i, [])"
proof (cases "i < 0")
  case False
  then show ?thesis by (simp add: int_repr_def match_integer_nat_repr)
next
  case True
  let ?m = "nat (- i)"
  have pos: "?m \<noteq> 0" using True by simp
  obtain d ds where r: "nat_repr ?m = d # ds"
    using nat_repr_props [of ?m] by (cases "nat_repr ?m") auto
  have dig: "is_digit d" "\<forall>c\<in>set ds. is_digit c" "d \<noteq> CHR ''0''"
    using nat_repr_props [of ?m] r pos by auto
  have "takeWhile is_digit ds = ds" "dropWhile is_digit ds = []"
    using dig(2) by (simp_all add: takeWhile_eq_all_conv)
  then show ?thesis
    using True r dig by (simp add: int_repr_def match_integer_def)
qed

lemma int_of_text_int_repr: "int_of_text (int_repr i) = i"
proof (cases "i < 0")
  case True
  then show ?thesis
    using nat_repr_props [of "nat (- i)"] by (simp add: int_repr_def int_of_text_def)
next
  case False
  obtain d ds where r: "nat_repr (nat i) = d # ds"
    using nat_repr_props [of "nat i"] by (cases "nat_repr (nat i)") auto
  have "is_digit d" using nat_repr_props [of "nat i"] r by simp
  then have "d \<noteq> CHR ''-''" by auto
  then have "int_of_text (d # ds) = int (digits_val (d # ds))"
    by (simp add: int_of_text_def)
  then show ?thesis
    using False nat_repr_props [of "nat i"] r by (simp add: int_repr_def)
qed

lemma match_frac_Nil [simp]: "match_frac [] = ([], [])"
  by (simp add: match_frac_def)

lemma match_exp_Nil [simp]: "match_exp [] = ([], [])"
  by (simp add: match_exp_def)

text \<open>A number literal, followed by a delimiter, is read as the number.\<close>

lemma scan_once_number:
  assumes mi: "match_integer s = Some (i, r1)"
    and mf: "match_frac r1 = (f, r2)" and me: "match_exp r2 = (e, [])"
    and del: "delimited rest"
  shows "scan_once lib (Suc n) room (s @ rest) =
    (if f \<noteq> [] \<or> e \<noteq> [] then Inr (JFloat (parse_float lib (i @ f @ e)), rest)
     else Inr (JInt (int_of_text i), rest))"
proof -
  obtain c s' where s: "s = c # s'" and c: "c = CHR ''-'' \<or> is_digit c"
    using match_integer_hd [OF mi] by (cases s) auto
  have c1: "c \<noteq> CHR 0x22" "c \<noteq> CHR ''{''" "c \<noteq> CHR ''[''" "c \<noteq> CHR ''n''" "c \<noteq> CHR ''t''"
      "c \<noteq> CHR ''f''"
    using c by (auto simp: is_digit_def)
  have a: "match_integer (s @ rest) = Some (i, r1 @ rest)"
    using mi del by (rule match_integer_append)
  have b: "match_frac (r1 @ rest) = (f, r2 @ rest)"
    using match_frac_append [OF del, of r1] mf by simp
  have d: "match_exp (r2 @ rest) = (e, rest)"
    using match_exp_append [OF del, of r2] me by simp
  have "scan_once lib (Suc n) room (c # s' @ rest) =
    (if f \<noteq> [] \<or> e \<noteq> [] then Inr (JFloat (parse_float lib (i @ f @ e)), rest)
     else Inr (JInt (int_of_text i), rest))"
    using c1 a [unfolded s] b d by simp
  then show ?thesis by (simp add: s)
qed

lemma scan_once_int:
  assumes "delimited rest"
  shows "scan_once lib (Suc n) room (int_repr i @ rest) = Inr (JInt i, rest)"
  using scan_once_number [OF match_integer_int_repr [of i] _ _ assms, where f = "[]"
      and ?r2.0 = "[]" and e = "[]" and lib = lib and n = n and room = room]
  by (simp add: int_of_text_int_repr)

lemma scan_once_float:
  assumes "float_ok lib r" and "delimited rest"
  shows "scan_once lib (Suc n) room (floatstr r @ rest) = Inr (JFloat r, rest)"
proof -
  have "\<not> float_literal ''nan''"
    by (simp add: float_literal_def match_integer_def is_digit_def)
  then consider (inf) "r = ''inf''" | (ninf) "r = ''-inf''"
    | (lit) "r \<noteq> ''nan''" "r \<noteq> ''inf''" "r \<noteq> ''-inf''" "float_literal r" "parse_float lib r = r"
    using assms(1) by (auto simp: float_ok_def)
  then show ?thesis
  proof cases
    case inf
    then show ?thesis by (simp add: floatstr_def match_integer_def is_digit_def)
  next
    case ninf
    then show ?thesis by (simp add: floatstr_def match_integer_def is_digit_def)
  next
    case lit
    obtain i r1 where mi: "match_integer r = Some (i, r1)"
      using lit(4) by (cases "match_integer r") (auto simp: float_literal_def)
    obtain f r2 where mf: "match_frac r1 = (f, r2)"
      by (cases "match_frac r1") auto
    obtain e r3 where me: "match_exp r2 = (e, r3)"
      by (cases "match_exp r2") auto
    have fl: "r3 = []" "f \<noteq> [] \<or> e \<noteq> []"
      using lit(4) mi mf me by (simp_all add: float_literal_def)
    have whole: "i @ f @ e = r"
    proof -
      have "i @ r1 = r" using mi
        by (cases r; cases "tl r")
          (auto simp: match_integer_def Let_def split: if_splits list.splits)
      moreover have "f @ r2 = r1" using mf
        by (cases r1; cases "tl r1") (auto simp: match_frac_def split: if_splits)
      moreover have "e @ r3 = r2" using me
        by (cases r2; cases "tl r2"; cases "tl (tl r2)")
          (auto simp: match_exp_def Let_def split: if_splits list.splits)
      ultimately show ?thesis using fl(1) by simp
    qed
    show ?thesis
      using scan_once_number [OF mi mf me [unfolded fl(1)] assms(2), where lib = lib and n = n
          and room = room] fl(2) lit whole
      by (simp add: floatstr_def)
  qed
qed


subsection \<open>Values\<close>

lemma skip_ws_plain: "\<not> is_ws c \<Longrightarrow> skip_ws (c # s) = c # s"
  by (simp add: skip_ws_def)

lemma skip_ws_space: "skip_ws (CHR '' '' # s) = skip_ws s"
  by (simp add: skip_ws_def)

lemma iterencode_first:
  assumes "wf_json lib v"
  shows "\<exists>c t. iterencode lvl v = c # t \<and> \<not> is_ws c \<and> c \<noteq> CHR '']'' \<and> c \<noteq> CHR 0xEF"
proof (cases v)
  case (JInt i)
  obtain d ds where r: "nat_repr (nat \<bar>i\<bar>) = d # ds" and d: "is_digit d"
    using nat_repr_props [of "nat \<bar>i\<bar>"] by (cases "nat_repr (nat \<bar>i\<bar>)") auto
  have "\<not> is_ws d" "d \<noteq> CHR '']''" "d \<noteq> CHR 0xEF"
    using d by (auto simp: is_digit_def is_ws_def)
  then show ?thesis
    using JInt r by (cases "i < 0") (auto simp: int_repr_def is_ws_def abs_if)
next
  case (JFloat r)
  then have ok: "float_ok lib r" using assms by simp
  show ?thesis
  proof (cases "r = ''nan'' \<or> r = ''inf'' \<or> r = ''-inf''")
    case True
    then show ?thesis using JFloat by (auto simp: floatstr_def is_ws_def)
  next
    case False
    then have "float_literal r" using ok by (simp add: float_ok_def)
    then obtain i r1 where "match_integer r = Some (i, r1)"
      by (cases "match_integer r") (auto simp: float_literal_def)
    then have "r \<noteq> [] \<and> (hd r = CHR ''-'' \<or> is_digit (hd r))"
      by (rule match_integer_hd)
    then obtain c t where "r = c # t" "c = CHR ''-'' \<or> is_digit c"
      by (cases r) auto
    then show ?thesis
      using JFloat False by (auto simp: floatstr_def is_ws_def is_digit_def)
  qed
qed (auto simp: encode_basestring_def is_ws_def)

lemma skip_ws_value:
  assumes "wf_json lib v"
  shows "skip_ws (newline_indent l @ iterencode lvl v @ t) = iterencode lvl v @ t"
proof -
  obtain c u where "iterencode lvl v = c # u" "\<not> is_ws c"
    using iterencode_first [OF assms] by blast
  then show ?thesis
    by (simp add: skip_ws_newline_indent skip_ws_plain)
qed

lemma list_tail_delimited [simp]:
  "delimited (iterencode_list lvl False xs @ newline_indent l0 @ t)"
  by (cases xs) simp_all

lemma dict_tail_delimited [simp]:
  "delimited (iterencode_dict lvl False kvs @ newline_indent l0 @ t)"
  by (cases kvs) simp_all

lemma array_items:
  assumes elems: "\<And>x lvl n room rest. x \<in> set ys \<Longrightarrow> wf_json lib x \<Longrightarrow> delimited rest \<Longrightarrow> size x < n \<Longrightarrow>
        scan_once lib n room (iterencode lvl x @ rest)
          = (if depth x \<le> room then Inr (x, rest) else Inl RecursionError)"
    and "ys \<noteq> []" and "wf_list lib ys" and "size_list size ys < n"
  shows "JSONArray lib n room acc
           (iterencode lvl (hd ys) @ iterencode_list lvl False (tl ys)
              @ newline_indent l0 @ CHR '']'' # rest)
         = (if depth_list ys \<le> room then Inr (JArr (acc @ ys), rest) else Inl RecursionError)"
  using assms
proof (induction ys arbitrary: n acc)
  case Nil
  then show ?case by simp
next
  case (Cons x xs)
  obtain m where n: "n = Suc m"
    using Cons.prems(4) by (cases n) auto
  let ?tail = "iterencode_list lvl False xs @ newline_indent l0 @ CHR '']'' # rest"
  have wx: "wf_json lib x" and wxs: "wf_list lib xs"
    using Cons.prems(3) by simp_all
  have sx: "size x < m" and sxs: "size_list size xs < m"
    using Cons.prems(4) n by simp_all
  have one: "scan_once lib m room (iterencode lvl x @ ?tail)
      = (if depth x \<le> room then Inr (x, ?tail) else Inl RecursionError)"
    by (rule Cons.prems(1)) (simp_all add: wx sx)
  show ?case
  proof (cases "depth x \<le> room")
    case False
    then have "JSONArray lib (Suc m) room acc (iterencode lvl x @ ?tail) = Inl RecursionError"
      using one by simp
    then show ?thesis
      using False n by simp
  next
    case deep: True
    show ?thesis
    proof (cases xs)
      case Nil
      have "skip_ws ?tail = CHR '']'' # rest"
        using Nil by (simp add: skip_ws_newline_indent skip_ws_plain)
      then show ?thesis
        using one deep Nil n by simp
    next
      case (Cons x' xs')
      let ?next = "iterencode lvl x' @ iterencode_list lvl False xs' @ newline_indent l0 @ CHR '']'' # rest"
      let ?res = "if depth_list xs \<le> room then Inr (JArr (acc @ x # xs), rest) else Inl RecursionError"
      have t: "?tail = CHR '','' # newline_indent lvl @ ?next"
        using Cons by simp
      have w': "wf_json lib x'" using wxs Cons by simp
      have sk: "skip_ws (newline_indent lvl @ ?next) = ?next"
        using skip_ws_value [OF w'] by simp
      have "JSONArray lib m room (acc @ [x]) (iterencode lvl (hd xs) @ iterencode_list lvl False (tl xs)
                @ newline_indent l0 @ CHR '']'' # rest)
          = (if depth_list xs \<le> room then Inr (JArr ((acc @ [x]) @ xs), rest) else Inl RecursionError)"
        by (rule Cons.IH) (use Cons.prems(1) wxs sxs Cons in simp_all)
      then have rec: "JSONArray lib m room (acc @ [x]) ?next = ?res"
        using Cons by simp
      have one': "scan_once lib m room (iterencode lvl x @ CHR '','' # newline_indent lvl @ ?next)
          = Inr (x, CHR '','' # newline_indent lvl @ ?next)"
        using one deep t by simp
      have sk1: "skip_ws (CHR '','' # newline_indent lvl @ ?next) = CHR '','' # newline_indent lvl @ ?next"
        by (simp add: skip_ws_plain)
      have "JSONArray lib (Suc m) room acc (iterencode lvl x @ CHR '','' # newline_indent lvl @ ?next)
          = JSONArray lib m room (acc @ [x]) (skip_ws (newline_indent lvl @ ?next))"
        unfolding JSONArray.simps one' by (simp only: sum.case prod.case sk1 list.case) simp
      also have "\<dots> = JSONArray lib m room (acc @ [x]) ?next"
        by (simp only: sk)
      also have "\<dots> = ?res"
        by (rule rec)
      finally show ?thesis using n t deep by simp
    qed
  qed
qed


lemma dict_set_fresh: "k \<notin> fst ` set d \<Longrightarrow> dict_set d k v = d @ [(k, v)]"
  by (induction d) auto

lemma py_dict_distinct_aux:
  "distinct (map fst (acc @ kvs)) \<Longrightarrow>
     foldl (\<lambda>d kv. dict_set d (fst kv) (snd kv)) acc kvs = acc @ kvs"
proof (induction kvs arbitrary: acc)
  case Nil
  then show ?case by simp
next
  case (Cons kv kvs)
  have "fst kv \<notin> fst ` set acc"
    using Cons.prems by auto
  then have "dict_set acc (fst kv) (snd kv) = acc @ [kv]"
    by (simp add: dict_set_fresh)
  moreover have "distinct (map fst ((acc @ [kv]) @ kvs))"
    using Cons.prems by simp
  ultimately show ?case
    using Cons.IH [of "acc @ [kv]"] by simp
qed

lemma py_dict_distinct: "distinct (map fst kvs) \<Longrightarrow> py_dict kvs = kvs"
  using py_dict_distinct_aux [of "[]" kvs] by (simp add: py_dict_def)

lemma size_prod_snd: "size_prod (\<lambda>_. 0) size kv = Suc (size (snd kv))"
  by (cases kv) simp

lemma dict_items:
  assumes elems: "\<And>kv lvl n room rest. kv \<in> set ys \<Longrightarrow> wf_json lib (snd kv) \<Longrightarrow> delimited rest \<Longrightarrow>
        size (snd kv) < n \<Longrightarrow>
        scan_once lib n room (iterencode lvl (snd kv) @ rest)
          = (if depth (snd kv) \<le> room then Inr (snd kv, rest) else Inl RecursionError)"
    and "ys \<noteq> []" and "wf_dict lib ys" and "size_list (size_prod (\<lambda>_. 0) size) ys < n"
  shows "JSONObject lib n room acc
           (tl (encode_basestring (fst (hd ys))) @ '': '' @ iterencode lvl (snd (hd ys))
              @ iterencode_dict lvl False (tl ys) @ newline_indent l0 @ CHR ''}'' # rest)
         = (if depth_dict ys \<le> room then Inr (JObj (py_dict (acc @ ys)), rest)
            else Inl RecursionError)"
  using assms
proof (induction ys arbitrary: n acc)
  case Nil
  then show ?case by simp
next
  case (Cons kv kvs)
  obtain m where n: "n = Suc m"
    using Cons.prems(4) by (cases n) auto
  let ?tail = "iterencode_dict lvl False kvs @ newline_indent l0 @ CHR ''}'' # rest"
  have wx: "wf_json lib (snd kv)" and wxs: "wf_dict lib kvs"
    using Cons.prems(3) by simp_all
  have "size_prod (\<lambda>_. 0) size kv + size_list (size_prod (\<lambda>_. 0) size) kvs < m"
    using Cons.prems(4) n by simp
  then have sx: "size (snd kv) < m" and sxs: "size_list (size_prod (\<lambda>_. 0) size) kvs < m"
    using size_prod_snd [of kv] by linarith+
  have key: "scanstring (tl (encode_basestring (fst kv)) @ '': '' @ iterencode lvl (snd kv) @ ?tail)
      = Some (fst kv, '': '' @ iterencode lvl (snd kv) @ ?tail)"
    by (rule scanstring_basestring)
  obtain c u where first: "iterencode lvl (snd kv) = c # u" "\<not> is_ws c"
    using iterencode_first [OF wx] by blast
  have sk0: "skip_ws (CHR '' '' # iterencode lvl (snd kv) @ ?tail) = iterencode lvl (snd kv) @ ?tail"
    using first by (simp add: skip_ws_space skip_ws_plain)
  have one: "scan_once lib m room (iterencode lvl (snd kv) @ ?tail)
      = (if depth (snd kv) \<le> room then Inr (snd kv, ?tail) else Inl RecursionError)"
    by (rule Cons.prems(1)) (simp_all add: wx sx)
  show ?case
  proof (cases "depth (snd kv) \<le> room")
    case False
    then have "JSONObject lib (Suc m) room acc
        (tl (encode_basestring (fst kv)) @ '': '' @ iterencode lvl (snd kv) @ ?tail)
        = Inl RecursionError"
      using sk0 one by (simp add: scanstring_basestring skip_ws_plain)
    then show ?thesis
      using False n by simp
  next
    case deep: True
    show ?thesis
    proof (cases kvs)
      case Nil
      have "skip_ws ?tail = CHR ''}'' # rest"
        using Nil by (simp add: skip_ws_newline_indent skip_ws_plain)
      then have "JSONObject lib (Suc m) room acc
          (tl (encode_basestring (fst kv)) @ '': '' @ iterencode lvl (snd kv) @ ?tail)
          = Inr (JObj (py_dict (acc @ [kv])), rest)"
        using sk0 one deep by (simp add: scanstring_basestring skip_ws_plain)
      then show ?thesis using Nil n deep by simp
    next
      case (Cons kv' kvs')
      let ?next = "tl (encode_basestring (fst kv')) @ '': '' @ iterencode lvl (snd kv')
          @ iterencode_dict lvl False kvs' @ newline_indent l0 @ CHR ''}'' # rest"
      let ?res = "if depth_dict kvs \<le> room then Inr (JObj (py_dict (acc @ kv # kvs)), rest)
          else Inl RecursionError"
      have t: "?tail = CHR '','' # newline_indent lvl @ CHR 0x22 # ?next"
        using Cons by (simp add: encode_basestring_def)
      have sk: "skip_ws (newline_indent lvl @ CHR 0x22 # ?next) = CHR 0x22 # ?next"
        by (simp add: skip_ws_newline_indent skip_ws_plain)
      have "JSONObject lib m room (acc @ [kv])
          (tl (encode_basestring (fst (hd kvs))) @ '': '' @ iterencode lvl (snd (hd kvs))
                @ iterencode_dict lvl False (tl kvs) @ newline_indent l0 @ CHR ''}'' # rest)
          = (if depth_dict kvs \<le> room then Inr (JObj (py_dict ((acc @ [kv]) @ kvs)), rest)
             else Inl RecursionError)"
        by (rule Cons.IH) (use Cons.prems(1) wxs sxs Cons in simp_all)
      then have rec: "JSONObject lib m room (acc @ [kv]) ?next = ?res"
        using Cons by simp
      have one': "scan_once lib m room
          (iterencode lvl (snd kv) @ CHR '','' # newline_indent lvl @ CHR 0x22 # ?next)
          = Inr (snd kv, CHR '','' # newline_indent lvl @ CHR 0x22 # ?next)"
        using one deep t by simp
      have sk0': "skip_ws (CHR '' '' # iterencode lvl (snd kv) @ CHR '','' # newline_indent lvl @ CHR 0x22 # ?next)
          = iterencode lvl (snd kv) @ CHR '','' # newline_indent lvl @ CHR 0x22 # ?next"
        using first by (simp add: skip_ws_space skip_ws_plain)
      have "JSONObject lib (Suc m) room acc
          (tl (encode_basestring (fst kv)) @ '': '' @ iterencode lvl (snd kv)
             @ CHR '','' # newline_indent lvl @ CHR 0x22 # ?next)
          = ?res"
        using sk0' one' sk rec by (simp add: scanstring_basestring skip_ws_plain)
      then show ?thesis using n t deep by simp
    qed
  qed
qed

text \<open>
  The scanner reads the text the encoder writes for a value back to the value, unless the
  value nests deeper than the room left: then it raises \<open>RecursionError\<close>.
\<close>

lemma scan_once_iterencode:
  "wf_json lib v \<Longrightarrow> delimited rest \<Longrightarrow> size v < n \<Longrightarrow>
     scan_once lib n room (iterencode lvl v @ rest)
       = (if depth v \<le> room then Inr (v, rest) else Inl RecursionError)"
proof (induction v arbitrary: lvl n room rest)
  case JNull
  then show ?case by (cases n) simp_all
next
  case (JBool b)
  then show ?case by (cases n) simp_all
next
  case (JInt i)
  then obtain m where n: "n = Suc m" by (cases n) auto
  have "scan_once lib (Suc m) room (int_repr i @ rest) = Inr (JInt i, rest)"
    by (rule scan_once_int) (rule JInt.prems(2))
  then show ?case
    using n by simp
next
  case (JFloat r)
  then obtain m where n: "n = Suc m" by (cases n) auto
  have "float_ok lib r" using JFloat.prems(1) by simp
  then have "scan_once lib (Suc m) room (floatstr r @ rest) = Inr (JFloat r, rest)"
    by (rule scan_once_float) (rule JFloat.prems(2))
  then show ?case
    using n by simp
next
  case (JStr s)
  then obtain m where n: "n = Suc m" by (cases n) auto
  have "scan_once lib (Suc m) room (CHR 0x22 # tl (encode_basestring s) @ rest) = Inr (JStr s, rest)"
    by (simp add: scanstring_basestring)
  then show ?case using n by (simp add: encode_basestring_def)
next
  case (JArr xs)
  then obtain m where n: "n = Suc m" by (cases n) auto
  show ?case
  proof (cases xs)
    case Nil
    then show ?thesis using n by (cases room) (simp_all add: skip_ws_plain)
  next
    case (Cons x xs')
    have w: "wf_list lib xs" using JArr.prems(1) by simp
    have sz: "size_list size xs < m" using JArr.prems(3) n by simp
    have items: "JSONArray lib m room' []
        (iterencode (Suc lvl) (hd xs) @ iterencode_list (Suc lvl) False (tl xs)
              @ newline_indent lvl @ CHR '']'' # rest)
         = (if depth_list xs \<le> room' then Inr (JArr ([] @ xs), rest) else Inl RecursionError)"
      for room'
      by (rule array_items) (use JArr.IH w sz Cons in simp_all)
    have wx: "wf_json lib x" using w Cons by simp
    let ?body = "iterencode (Suc lvl) x @ iterencode_list (Suc lvl) False xs'
         @ newline_indent lvl @ CHR '']'' # rest"
    obtain c u where first: "iterencode (Suc lvl) x = c # u" "\<not> is_ws c" "c \<noteq> CHR '']''"
      using iterencode_first [OF wx] by blast
    have sk: "skip_ws (newline_indent (Suc lvl) @ ?body) = c # u @ iterencode_list (Suc lvl) False xs'
         @ newline_indent lvl @ CHR '']'' # rest"
      using skip_ws_value [OF wx, of "Suc lvl" "Suc lvl"] first by simp
    have items': "JSONArray lib m room' [] (c # u @ iterencode_list (Suc lvl) False xs'
         @ newline_indent lvl @ CHR '']'' # rest)
         = (if depth_list xs \<le> room' then Inr (JArr xs, rest) else Inl RecursionError)"
      for room'
      using items [of room'] Cons first by simp
    have "scan_once lib (Suc m) room (CHR ''['' # newline_indent (Suc lvl) @ ?body)
        = (if room = 0 then Inl RecursionError
           else if depth_list xs \<le> room - 1 then Inr (JArr xs, rest) else Inl RecursionError)"
      using first(3) by (simp add: sk items')
    moreover have "(depth (JArr xs) \<le> room) = (room \<noteq> 0 \<and> depth_list xs \<le> room - 1)"
      by (cases room) simp_all
    ultimately have "scan_once lib (Suc m) room (CHR ''['' # newline_indent (Suc lvl) @ ?body)
        = (if depth (JArr xs) \<le> room then Inr (JArr xs, rest) else Inl RecursionError)"
      by simp
    then show ?thesis using n Cons by simp
  qed
next
  case (JObj kvs)
  then obtain m where n: "n = Suc m" by (cases n) auto
  show ?case
  proof (cases kvs)
    case Nil
    then show ?thesis using n by (cases room) (simp_all add: skip_ws_plain)
  next
    case (Cons kv kvs')
    have w: "wf_dict lib kvs" and dist: "distinct (map fst kvs)"
      using JObj.prems(1) by simp_all
    have sz: "size_list (size_prod (\<lambda>_. 0) size) kvs < m"
      using JObj.prems(3) n by simp
    have elems: "scan_once lib n' room' (iterencode lvl' (snd kv0) @ rest')
        = (if depth (snd kv0) \<le> room' then Inr (snd kv0, rest') else Inl RecursionError)"
      if "kv0 \<in> set kvs" "wf_json lib (snd kv0)" "delimited rest'" "size (snd kv0) < n'"
      for kv0 lvl' n' room' rest'
      using JObj.IH [of kv0 "snd kv0"] that by (cases kv0) auto
    have items: "JSONObject lib m room' []
        (tl (encode_basestring (fst (hd kvs))) @ '': '' @ iterencode (Suc lvl) (snd (hd kvs))
              @ iterencode_dict (Suc lvl) False (tl kvs) @ newline_indent lvl @ CHR ''}'' # rest)
         = (if depth_dict kvs \<le> room' then Inr (JObj (py_dict ([] @ kvs)), rest)
            else Inl RecursionError)"
      for room'
      by (rule dict_items) (use elems w sz Cons in simp_all)
    let ?body = "tl (encode_basestring (fst kv)) @ '': '' @ iterencode (Suc lvl) (snd kv)
         @ iterencode_dict (Suc lvl) False kvs' @ newline_indent lvl @ CHR ''}'' # rest"
    have items': "JSONObject lib m room' [] ?body
        = (if depth_dict kvs \<le> room' then Inr (JObj kvs, rest) else Inl RecursionError)"
      for room'
      using items [of room'] Cons dist by (simp add: py_dict_distinct)
    have sk: "skip_ws (newline_indent (Suc lvl) @ CHR 0x22 # ?body) = CHR 0x22 # ?body"
      by (simp add: skip_ws_newline_indent skip_ws_plain)
    have "scan_once lib (Suc m) room (CHR ''{'' # newline_indent (Suc lvl) @ CHR 0x22 # ?body)
        = (if room = 0 then Inl RecursionError
           else if depth_dict kvs \<le> room - 1 then Inr (JObj kvs, rest) else Inl RecursionError)"
      using sk items' by simp
    moreover have "(depth (JObj kvs) \<le> room) = (room \<noteq> 0 \<and> depth_dict kvs \<le> room - 1)"
      by (cases room) simp_all
    ultimately have "scan_once lib (Suc m) room (CHR ''{'' # newline_indent (Suc lvl) @ CHR 0x22 # ?body)
        = (if depth (JObj kvs) \<le> room then Inr (JObj kvs, rest) else Inl RecursionError)"
      by simp
    then show ?thesis using n Cons by (simp add: encode_basestring_def)
  qed
qed


subsection \<open>Whole texts\<close>

lemma length_newline_indent: "length (newline_indent lvl) = Suc (4 * lvl)"
  by (simp add: newline_indent_def)

lemma size_list_le_length:
  assumes "\<And>x lvl. x \<in> set xs \<Longrightarrow> size x \<le> length (iterencode lvl x)"
  shows "size_list size xs \<le> length (iterencode_list lvl first xs)"
  using assms
proof (induction xs arbitrary: first)
  case Nil
  then show ?case by simp
next
  case (Cons x xs)
  have "size x \<le> length (iterencode lvl x)"
    by (rule Cons.prems) simp
  moreover have "size_list size xs \<le> length (iterencode_list lvl False xs)"
    by (rule Cons.IH) (simp add: Cons.prems)
  ultimately show ?case
    by (simp add: length_newline_indent)
qed

lemma size_dict_le_length:
  assumes "\<And>kv lvl. kv \<in> set kvs \<Longrightarrow> size (snd kv) \<le> length (iterencode lvl (snd kv))"
  shows "size_list (size_prod (\<lambda>_. 0) size) kvs \<le> length (iterencode_dict lvl first kvs)"
  using assms
proof (induction kvs arbitrary: first)
  case Nil
  then show ?case by simp
next
  case (Cons kv kvs)
  have "size (snd kv) \<le> length (iterencode lvl (snd kv))"
    by (rule Cons.prems) simp
  moreover have "size_list (size_prod (\<lambda>_. 0) size) kvs \<le> length (iterencode_dict lvl False kvs)"
    by (rule Cons.IH) (simp add: Cons.prems)
  moreover have "size_prod (\<lambda>_. 0) size kv = Suc (size (snd kv))"
    by (rule size_prod_snd)
  ultimately show ?case
    by (simp add: length_newline_indent)
qed

lemma size_le_length: "size v \<le> length (iterencode lvl v)"
proof (induction v arbitrary: lvl)
  case (JArr xs)
  have "size_list size xs \<le> length (iterencode_list (Suc lvl) True xs)"
    by (rule size_list_le_length) (rule JArr.IH)
  then show ?case by simp
next
  case (JObj kvs)
  have "size_list (size_prod (\<lambda>_. 0) size) kvs \<le> length (iterencode_dict (Suc lvl) True kvs)"
  proof (rule size_dict_le_length)
    fix kv :: "string \<times> json" and l
    assume mem: "kv \<in> set kvs"
    obtain k v where kv: "kv = (k, v)" by (cases kv)
    have "size v \<le> length (iterencode l v)"
      by (rule JObj.IH [of "(k, v)" v]) (use mem kv in simp_all)
    then show "size (snd kv) \<le> length (iterencode l (snd kv))"
      by (simp add: kv)
  qed
  then show ?case by simp
qed simp_all

text \<open>
  \<^verbatim>\<open>json.loads\<close> reads the text of \<^verbatim>\<open>json.dumps\<close>, with or without a final line break, back
  to the value when the value nests no deeper than the recursion limit allows, and raises
  \<open>RecursionError\<close> when it nests deeper.
\<close>

lemma json_loads_dumps_depth:
  assumes "wf_json lib v" and "t = [] \<or> t = [CHR 0x0A]"
  shows "json_loads lib (json_dumps v @ t)
    = (if depth v \<le> depth_limit lib then Inr v else Inl RecursionError)"
proof -
  let ?text = "iterencode 0 v @ t"
  obtain c u where first: "iterencode 0 v = c # u" "\<not> is_ws c" "c \<noteq> CHR 0xEF"
    using iterencode_first [OF assms(1)] by blast
  have bom: "take 3 ?text \<noteq> [CHR 0xEF, CHR 0xBB, CHR 0xBF]"
    using first by auto
  have sk: "skip_ws ?text = ?text"
    using first by (simp add: skip_ws_plain)
  have del: "delimited t"
    using assms(2) by auto
  have "size v \<le> length (iterencode 0 v)"
    by (rule size_le_length)
  then have fuel: "size v < 2 * length ?text + 2"
    by simp
  have one: "scan_once lib (2 * length ?text + 2) (depth_limit lib) ?text
      = (if depth v \<le> depth_limit lib then Inr (v, t) else Inl RecursionError)"
    using assms(1) del fuel by (rule scan_once_iterencode)
  have end_ok: "skip_ws t = []"
    using assms(2) by (auto simp: skip_ws_def is_ws_def)
  show ?thesis
    unfolding json_loads_def json_dumps_def using bom sk one end_ok by simp
qed

lemma json_loads_dumps:
  assumes "wf_json lib v" and "depth v \<le> depth_limit lib" and "t = [] \<or> t = [CHR 0x0A]"
  shows "json_loads lib (json_dumps v @ t) = Inr v"
  using json_loads_dumps_depth [OF assms(1,3)] assms(2) by simp

section \<open>Lemmas about the decoder on any text\<close>

text \<open>What the string scanner leaves is shorter than what it was given, and skipping
  white space leaves no more.\<close>

lemma scan_cons_Some: "scan_cons ch res = Some (k, r) \<Longrightarrow> \<exists>k'. res = Some (k', r)"
  by (cases res) (auto simp: scan_cons_def)

lemma scanstring_length: "scanstring s = Some (k, r) \<Longrightarrow> length r < length s"
proof (induction "length s" arbitrary: s k r rule: less_induct)
  case less
  from less.prems obtain c cs where s: "s = c # cs"
    by (cases s) simp_all
  have ih: "\<And>t k' r'. length t \<le> length cs \<Longrightarrow> scanstring t = Some (k', r') \<Longrightarrow> length r' < length s"
  proof -
    fix t k' r'
    assume t: "length t \<le> length cs" and "scanstring t = Some (k', r')"
    then have "length r' < length t"
      using less.hyps [of t k' r'] s by simp
    then show "length r' < length s"
      using t s by simp
  qed
  have sc: "\<And>ch t. length t \<le> length cs \<Longrightarrow> scan_cons ch (scanstring t) = Some (k, r)
      \<Longrightarrow> length r < length s"
    using ih scan_cons_Some by blast
  show ?case
  proof (cases "c = CHR 0x22")
    case True
    then show ?thesis
      using less.prems s by simp
  next
    case q: False
    show ?thesis
    proof (cases "c = CHR 0x5C")
      case False
      then have "scan_cons [c] (scanstring cs) = Some (k, r)"
        using less.prems s q by (simp split: if_splits)
      then show ?thesis
        by (rule sc [rotated]) simp
    next
      case True
      then obtain e t where cs: "cs = e # t"
        using less.prems s q by (cases cs) simp_all
      show ?thesis
      proof (cases "e = CHR ''u''")
        case False
        then obtain ch where "scan_cons [ch] (scanstring t) = Some (k, r)"
          using less.prems s q True cs by (cases "backslash e") simp_all
        then show ?thesis
          by (rule sc [rotated]) (simp add: cs)
      next
        case u: True
        then obtain uni where uni: "decode_uXXXX t = Some uni"
          using less.prems s q True cs by (cases "decode_uXXXX t") simp_all
        have "(\<exists>ch. scan_cons ch (scanstring (drop 10 t)) = Some (k, r))
            \<or> (\<exists>ch. scan_cons ch (scanstring (drop 4 t)) = Some (k, r))"
          using less.prems s q True cs u uni
          by (auto split: if_splits option.splits)
        then show ?thesis
        proof
          assume "\<exists>ch. scan_cons ch (scanstring (drop 10 t)) = Some (k, r)"
          then obtain ch where "scan_cons ch (scanstring (drop 10 t)) = Some (k, r)" ..
          then show ?thesis
            by (rule sc [rotated]) (simp add: cs)
        next
          assume "\<exists>ch. scan_cons ch (scanstring (drop 4 t)) = Some (k, r)"
          then obtain ch where "scan_cons ch (scanstring (drop 4 t)) = Some (k, r)" ..
          then show ?thesis
            by (rule sc [rotated]) (simp add: cs)
        qed
      qed
    qed
  qed
qed

lemma skip_ws_length: "length (skip_ws s) \<le> length s"
  by (simp add: skip_ws_def length_dropWhile_le)

lemma skip_ws_Cons_length: "skip_ws s = d # r \<Longrightarrow> length r < length s"
  using skip_ws_length [of s] by simp

text \<open>What the scanners leave is the end of what they were given.\<close>

lemma scanstring_suffix: "scanstring s = Some (k, r) \<Longrightarrow> suffix r s"
proof (induction "length s" arbitrary: s k r rule: less_induct)
  case less
  from less.prems obtain c cs where s: "s = c # cs"
    by (cases s) simp_all
  have ih: "\<And>t k' r'. suffix t cs \<Longrightarrow> scanstring t = Some (k', r') \<Longrightarrow> suffix r' s"
  proof -
    fix t k' r'
    assume t: "suffix t cs" and sc: "scanstring t = Some (k', r')"
    have "length t < length s"
      using suffix_length_le [OF t] s by simp
    then have "suffix r' t"
      using sc by (rule less.hyps)
    then have "suffix r' cs"
      using t by (rule suffix_order.trans)
    then show "suffix r' s"
      unfolding s by (rule suffix_ConsI)
  qed
  have sc: "\<And>ch t. suffix t cs \<Longrightarrow> scan_cons ch (scanstring t) = Some (k, r) \<Longrightarrow> suffix r s"
    using ih scan_cons_Some by blast
  show ?case
  proof (cases "c = CHR 0x22")
    case True
    then have "r = cs"
      using less.prems s by simp
    then show ?thesis
      unfolding s by (simp add: suffix_ConsI)
  next
    case q: False
    show ?thesis
    proof (cases "c = CHR 0x5C")
      case False
      then have "scan_cons [c] (scanstring cs) = Some (k, r)"
        using less.prems s q by (simp split: if_splits)
      then show ?thesis
        by (rule sc [rotated]) simp
    next
      case True
      then obtain e t where cs: "cs = e # t"
        using less.prems s q by (cases cs) simp_all
      show ?thesis
      proof (cases "e = CHR ''u''")
        case False
        then obtain ch where "scan_cons [ch] (scanstring t) = Some (k, r)"
          using less.prems s q True cs by (cases "backslash e") simp_all
        then show ?thesis
          by (rule sc [rotated]) (simp add: cs suffix_ConsI)
      next
        case u: True
        then obtain uni where uni: "decode_uXXXX t = Some uni"
          using less.prems s q True cs by (cases "decode_uXXXX t") simp_all
        have "(\<exists>ch. scan_cons ch (scanstring (drop 10 t)) = Some (k, r))
            \<or> (\<exists>ch. scan_cons ch (scanstring (drop 4 t)) = Some (k, r))"
          using less.prems s q True cs u uni
          by (auto split: if_splits option.splits)
        then show ?thesis
        proof
          assume "\<exists>ch. scan_cons ch (scanstring (drop 10 t)) = Some (k, r)"
          then obtain ch where "scan_cons ch (scanstring (drop 10 t)) = Some (k, r)" ..
          then show ?thesis
            by (rule sc [rotated]) (simp add: cs suffix_ConsI suffix_drop)
        next
          assume "\<exists>ch. scan_cons ch (scanstring (drop 4 t)) = Some (k, r)"
          then obtain ch where "scan_cons ch (scanstring (drop 4 t)) = Some (k, r)" ..
          then show ?thesis
            by (rule sc [rotated]) (simp add: cs suffix_ConsI suffix_drop)
        qed
      qed
    qed
  qed
qed

lemma skip_ws_suffix: "suffix (skip_ws s) s"
  by (simp add: skip_ws_def suffix_dropWhile)

lemma skip_ws_Cons_suffix: "skip_ws s = d # r \<Longrightarrow> suffix r s"
  using skip_ws_suffix [of s] by (auto dest: suffix_ConsD)

lemma match_integer_suffix: "match_integer s = Some (i, r) \<Longrightarrow> suffix r s"
proof -
  assume a: "match_integer s = Some (i, r)"
  have d: "\<And>ds. suffix (dropWhile is_digit ds) ds"
    by (rule suffix_dropWhile)
  show ?thesis
  proof (cases s)
    case Nil
    then show ?thesis using a by (simp add: match_integer_def)
  next
    case (Cons c cs)
    show ?thesis
    proof (cases "c = CHR ''-''")
      case True
      then obtain e es where cs: "cs = e # es"
        using a Cons by (cases cs) (simp_all add: match_integer_def)
      show ?thesis
        using a Cons True cs d [of es]
        by (auto simp: match_integer_def Let_def suffix_ConsI split: if_splits)
    next
      case False
      show ?thesis
        using a Cons False d [of cs]
        by (auto simp: match_integer_def Let_def suffix_ConsI split: if_splits)
    qed
  qed
qed

lemma match_frac_suffix: "suffix (snd (match_frac s)) s"
proof (cases s)
  case Nil
  then show ?thesis by (simp add: match_frac_def)
next
  case (Cons c t)
  show ?thesis
  proof (cases t)
    case Nil
    then show ?thesis using Cons by (simp add: match_frac_def)
  next
    case (Cons d ds)
    have "suffix (dropWhile is_digit ds) ds"
      by (rule suffix_dropWhile)
    then show ?thesis
      using \<open>s = c # t\<close> Cons by (simp add: match_frac_def suffix_ConsI)
  qed
qed

lemma match_exp_suffix: "suffix (snd (match_exp s)) s"
proof (cases s)
  case Nil
  then show ?thesis by (simp add: match_exp_def)
next
  case (Cons e t)
  have d: "\<And>ds. suffix (dropWhile is_digit ds) ds"
    by (rule suffix_dropWhile)
  show ?thesis
  proof (cases t)
    case Nil
    then show ?thesis using \<open>s = e # t\<close> by (simp add: match_exp_def)
  next
    case (Cons x xs)
    show ?thesis
    proof (cases xs)
      case Nil
      then show ?thesis
        using \<open>s = e # t\<close> Cons by (simp add: match_exp_def Let_def suffix_ConsI)
    next
      case (Cons y ys)
      then show ?thesis
        using \<open>s = e # t\<close> \<open>t = x # xs\<close> d [of xs] d [of ys]
        by (simp add: match_exp_def Let_def suffix_ConsI)
    qed
  qed
qed

lemma scan_once_Suc_suffix:
  assumes arr: "\<And>room vals t v r. JSONArray lib n room vals t = Inr (v, r) \<Longrightarrow> suffix r t"
    and obj: "\<And>room pairs t v r. JSONObject lib n room pairs t = Inr (v, r) \<Longrightarrow> suffix r t"
    and ok: "scan_once lib (Suc n) room s = Inr (v, r)"
  shows "suffix r s"
proof -
  from ok obtain c cs where s: "s = c # cs"
    by (cases s) simp_all
  have up: "suffix t cs \<Longrightarrow> suffix t s" for t
    unfolding s by (rule suffix_ConsI)
  consider (str) "c = CHR 0x22"
    | (obj) "c \<noteq> CHR 0x22" "c = CHR ''{''"
    | (arr) "c \<noteq> CHR 0x22" "c \<noteq> CHR ''{''" "c = CHR ''[''"
    | (other) "c \<noteq> CHR 0x22" "c \<noteq> CHR ''{''" "c \<noteq> CHR ''[''"
    by blast
  then show ?thesis
  proof cases
    case str
    then obtain k where "scanstring cs = Some (k, r)"
      using ok s by (cases "scanstring cs") auto
    then have "suffix r cs"
      by (rule scanstring_suffix)
    then show ?thesis
      by (rule up)
  next
    case obj
    have room: "room \<noteq> 0"
      using ok s obj by (cases "room = 0") simp_all
    then obtain d t where sk: "skip_ws cs = d # t"
      using ok s obj by (cases "skip_ws cs") simp_all
    have lt: "suffix t cs"
      using sk by (rule skip_ws_Cons_suffix)
    have "r = t \<or> JSONObject lib n (room - 1) [] t = Inr (v, r)"
      using ok s obj sk room by (simp split: if_splits)
    then have "suffix r t"
      using assms(2) by auto
    then have "suffix r cs"
      using lt by (rule suffix_order.trans)
    then show ?thesis
      by (rule up)
  next
    case arr
    have room: "room \<noteq> 0"
      using ok s arr by (cases "room = 0") simp_all
    then obtain d t where sk: "skip_ws cs = d # t"
      using ok s arr by (cases "skip_ws cs") simp_all
    have lt: "suffix (d # t) cs"
      using skip_ws_suffix [of cs] sk by simp
    have "r = t \<or> JSONArray lib n (room - 1) [] (d # t) = Inr (v, r)"
      using ok s arr sk room by (simp split: if_splits)
    then have "suffix r (d # t)"
      using assms(1) [of "room - 1" "[]" "d # t" v r] by (auto simp: suffix_ConsI)
    then have "suffix r cs"
      using lt by (rule suffix_order.trans)
    then show ?thesis
      by (rule up)
  next
    case other
    have num: "suffix (snd (match_exp (snd (match_frac t)))) s"
      if m: "match_integer s = Some (i, t)" for i t
    proof -
      have "suffix (snd (match_exp (snd (match_frac t)))) (snd (match_frac t))"
        by (rule match_exp_suffix)
      also have "suffix \<dots> t"
        by (rule match_frac_suffix)
      also have "suffix \<dots> s"
        using m by (rule match_integer_suffix)
      finally show ?thesis .
    qed
    have "r = drop 4 s \<or> r = drop 5 s \<or> r = drop 3 s \<or> r = drop 8 s \<or> r = drop 9 s
        \<or> (\<exists>i t. match_integer s = Some (i, t) \<and> r = snd (match_exp (snd (match_frac t))))"
      using ok other unfolding s scan_once.simps list.case
      by (auto simp: Let_def split: if_splits option.splits prod.splits)
    then show ?thesis
      using num suffix_drop [of _ s] by auto
  qed
qed

lemma JSONArray_Suc_suffix:
  assumes scan: "\<And>room t v r. scan_once lib n room t = Inr (v, r) \<Longrightarrow> suffix r t"
    and arr: "\<And>room vals t v r. JSONArray lib n room vals t = Inr (v, r) \<Longrightarrow> suffix r t"
    and ok: "JSONArray lib (Suc n) room vals s = Inr (v, r)"
  shows "suffix r s"
proof -
  from ok obtain v1 r0 where s1: "scan_once lib n room s = Inr (v1, r0)"
    by (cases "scan_once lib n room s") auto
  from ok s1 obtain d r1 where sk: "skip_ws r0 = d # r1"
    by (cases "skip_ws r0") simp_all
  have l0: "suffix r0 s"
    using s1 by (rule scan)
  have l1: "suffix r1 r0"
    using sk by (rule skip_ws_Cons_suffix)
  have "r = r1 \<or> JSONArray lib n room (vals @ [v1]) (skip_ws r1) = Inr (v, r)"
    using ok s1 sk by (simp split: if_splits)
  then have "suffix r r1"
  proof
    assume "r = r1"
    then show ?thesis by simp
  next
    assume "JSONArray lib n room (vals @ [v1]) (skip_ws r1) = Inr (v, r)"
    then have "suffix r (skip_ws r1)"
      by (rule arr)
    then show ?thesis
      using skip_ws_suffix [of r1] by (rule suffix_order.trans)
  qed
  then have "suffix r r0"
    using l1 by (rule suffix_order.trans)
  then show ?thesis
    using l0 by (rule suffix_order.trans)
qed

lemma JSONObject_Suc_suffix:
  assumes scan: "\<And>room t v r. scan_once lib n room t = Inr (v, r) \<Longrightarrow> suffix r t"
    and obj: "\<And>room pairs t v r. JSONObject lib n room pairs t = Inr (v, r) \<Longrightarrow> suffix r t"
    and ok: "JSONObject lib (Suc n) room pairs s = Inr (v, r)"
  shows "suffix r s"
proof -
  from ok obtain key r0 where k: "scanstring s = Some (key, r0)"
    by (cases "scanstring s") auto
  from ok k obtain d r1 where sk: "skip_ws r0 = d # r1"
    by (cases "skip_ws r0") simp_all
  have d: "d = CHR '':''"
    using ok k sk by (simp split: if_splits)
  from ok k sk d obtain v1 r2 where s1: "scan_once lib n room (skip_ws r1) = Inr (v1, r2)"
    by (cases "scan_once lib n room (skip_ws r1)") auto
  from ok k sk d s1 obtain d2 r3 where sk2: "skip_ws r2 = d2 # r3"
    by (cases "skip_ws r2") simp_all
  have l0: "suffix r0 s"
    using k by (rule scanstring_suffix)
  have l1: "suffix r1 r0"
    using sk by (rule skip_ws_Cons_suffix)
  have l2: "suffix r2 r1"
    using scan [OF s1] skip_ws_suffix [of r1] by (rule suffix_order.trans)
  have l3: "suffix r3 r2"
    using sk2 by (rule skip_ws_Cons_suffix)
  have "r = r3 \<or> (\<exists>q r4. skip_ws r3 = q # r4
      \<and> JSONObject lib n room (pairs @ [(key, v1)]) r4 = Inr (v, r))"
    using ok k sk d s1 sk2 by (auto split: if_splits list.splits)
  then have "suffix r r3"
  proof
    assume "r = r3"
    then show ?thesis by simp
  next
    assume "\<exists>q r4. skip_ws r3 = q # r4 \<and> JSONObject lib n room (pairs @ [(key, v1)]) r4 = Inr (v, r)"
    then obtain q r4 where sk3: "skip_ws r3 = q # r4"
      and o: "JSONObject lib n room (pairs @ [(key, v1)]) r4 = Inr (v, r)"
      by blast
    have "suffix r r4"
      using o by (rule obj)
    then show ?thesis
      using skip_ws_Cons_suffix [OF sk3] by (rule suffix_order.trans)
  qed
  then have "suffix r r2"
    using l3 by (rule suffix_order.trans)
  then have "suffix r r1"
    using l2 by (rule suffix_order.trans)
  then have "suffix r r0"
    using l1 by (rule suffix_order.trans)
  then show ?thesis
    using l0 by (rule suffix_order.trans)
qed

lemma scan_suffix:
  "(\<forall>room s v r. scan_once lib n room s = Inr (v, r) \<longrightarrow> suffix r s)
   \<and> (\<forall>room vals s v r. JSONArray lib n room vals s = Inr (v, r) \<longrightarrow> suffix r s)
   \<and> (\<forall>room pairs s v r. JSONObject lib n room pairs s = Inr (v, r) \<longrightarrow> suffix r s)"
proof (induction n)
  case 0
  show ?case by simp
next
  case (Suc n)
  have scan: "\<And>room t v r. scan_once lib n room t = Inr (v, r) \<Longrightarrow> suffix r t"
    and arr: "\<And>room vals t v r. JSONArray lib n room vals t = Inr (v, r) \<Longrightarrow> suffix r t"
    and obj: "\<And>room pairs t v r. JSONObject lib n room pairs t = Inr (v, r) \<Longrightarrow> suffix r t"
    using Suc by blast+
  have "\<forall>room s v r. scan_once lib (Suc n) room s = Inr (v, r) \<longrightarrow> suffix r s"
  proof (intro allI impI)
    fix room s v r
    assume ok: "scan_once lib (Suc n) room s = Inr (v, r)"
    show "suffix r s"
    proof (rule scan_once_Suc_suffix [where lib = lib and n = n and v = v and room = room])
      show "scan_once lib (Suc n) room s = Inr (v, r)" by (rule ok)
    qed (rule arr, assumption, rule obj, assumption)
  qed
  moreover have "\<forall>room vals s v r. JSONArray lib (Suc n) room vals s = Inr (v, r) \<longrightarrow> suffix r s"
  proof (intro allI impI)
    fix room vals s v r
    assume ok: "JSONArray lib (Suc n) room vals s = Inr (v, r)"
    show "suffix r s"
    proof (rule JSONArray_Suc_suffix [where lib = lib and n = n and v = v and vals = vals
          and room = room])
      show "JSONArray lib (Suc n) room vals s = Inr (v, r)" by (rule ok)
    qed (rule scan, assumption, rule arr, assumption)
  qed
  moreover have "\<forall>room pairs s v r. JSONObject lib (Suc n) room pairs s = Inr (v, r) \<longrightarrow> suffix r s"
  proof (intro allI impI)
    fix room pairs s v r
    assume ok: "JSONObject lib (Suc n) room pairs s = Inr (v, r)"
    show "suffix r s"
    proof (rule JSONObject_Suc_suffix [where lib = lib and n = n and v = v and pairs = pairs
          and room = room])
      show "JSONObject lib (Suc n) room pairs s = Inr (v, r)" by (rule ok)
    qed (rule scan, assumption, rule obj, assumption)
  qed
  ultimately show ?case by blast
qed

lemma scan_once_suffix: "scan_once lib n room s = Inr (v, r) \<Longrightarrow> suffix r s"
  using scan_suffix [of lib n] by blast

lemma scan_once_length: "scan_once lib n room s = Inr (v, r) \<Longrightarrow> length r \<le> length s"
  by (rule suffix_length_le) (rule scan_once_suffix)


text \<open>
  The first counter does not matter once it is above twice the length of the text: a greater
  one gives the same result.
\<close>

lemma scan_once_Suc_fuel:
  assumes arr: "\<And>room vals t. length t < length s \<Longrightarrow>
        JSONArray lib n room vals t = JSONArray lib m room vals t"
    and obj: "\<And>room pairs t. length t < length s \<Longrightarrow>
        JSONObject lib n room pairs t = JSONObject lib m room pairs t"
  shows "scan_once lib (Suc n) room s = scan_once lib (Suc m) room s"
proof (cases s)
  case Nil
  then show ?thesis by simp
next
  case (Cons c cs)
  show ?thesis
  proof (cases "skip_ws cs")
    case Nil
    then show ?thesis
      using Cons by simp
  next
    case sk: (Cons d t)
    have lt: "length t < length s" "length (d # t) < length s"
      using skip_ws_Cons_length [OF sk] skip_ws_length [of cs] sk Cons by simp_all
    have "JSONObject lib n (room - 1) [] t = JSONObject lib m (room - 1) [] t"
      using lt(1) by (rule obj)
    moreover have "JSONArray lib n (room - 1) [] (d # t) = JSONArray lib m (room - 1) [] (d # t)"
      using lt(2) by (rule arr)
    ultimately show ?thesis
      using Cons sk by simp
  qed
qed

lemma JSONArray_Suc_fuel:
  assumes scan: "scan_once lib n room s = scan_once lib m room s"
    and arr: "\<And>vals t. length t < length s \<Longrightarrow>
        JSONArray lib n room vals t = JSONArray lib m room vals t"
  shows "JSONArray lib (Suc n) room vals s = JSONArray lib (Suc m) room vals s"
proof (cases "scan_once lib m room s")
  case (Inl e)
  then show ?thesis
    using scan by simp
next
  case (Inr vr)
  obtain v r where vr: "vr = (v, r)"
    by (cases vr)
  have lr: "length r \<le> length s"
    using Inr vr by (auto intro: scan_once_length)
  show ?thesis
  proof (cases "skip_ws r")
    case Nil
    then show ?thesis
      using scan Inr vr by simp
  next
    case (Cons d r1)
    have "length (skip_ws r1) < length s"
      using skip_ws_Cons_length [OF Cons] skip_ws_length [of r1] lr by simp
    then have "JSONArray lib n room (vals @ [v]) (skip_ws r1)
        = JSONArray lib m room (vals @ [v]) (skip_ws r1)"
      by (rule arr)
    then show ?thesis
      using scan Inr vr Cons by simp
  qed
qed

lemma JSONObject_Suc_fuel:
  assumes scan: "\<And>t. length t < length s \<Longrightarrow> scan_once lib n room t = scan_once lib m room t"
    and obj: "\<And>pairs t. length t < length s \<Longrightarrow>
        JSONObject lib n room pairs t = JSONObject lib m room pairs t"
  shows "JSONObject lib (Suc n) room pairs s = JSONObject lib (Suc m) room pairs s"
proof (cases "scanstring s")
  case None
  then show ?thesis by simp
next
  case (Some kr)
  obtain key r0 where kr: "kr = (key, r0)"
    by (cases kr)
  have l0: "length r0 < length s"
    using Some kr by (auto intro: scanstring_length)
  show ?thesis
  proof (cases "skip_ws r0")
    case Nil
    then show ?thesis
      using Some kr by simp
  next
    case sk: (Cons d r1)
    have l1: "length (skip_ws r1) < length s"
      using skip_ws_Cons_length [OF sk] skip_ws_length [of r1] l0 by simp
    have s1: "scan_once lib n room (skip_ws r1) = scan_once lib m room (skip_ws r1)"
      using l1 by (rule scan)
    show ?thesis
    proof (cases "scan_once lib m room (skip_ws r1)")
      case (Inl e)
      then show ?thesis
        using Some kr sk s1 by simp
    next
      case (Inr vr)
      obtain v r2 where vr: "vr = (v, r2)"
        by (cases vr)
      have l2: "length r2 < length s"
        using scan_once_length [of lib m room "skip_ws r1" v r2] Inr vr l1 by simp
      show ?thesis
      proof (cases "skip_ws r2")
        case Nil
        then show ?thesis
          using Some kr sk s1 Inr vr by simp
      next
        case sk2: (Cons d2 r3)
        have l3: "length r3 < length s"
          using skip_ws_Cons_length [OF sk2] l2 by simp
        show ?thesis
        proof (cases "skip_ws r3")
          case Nil
          then show ?thesis
            using Some kr sk s1 Inr vr sk2 by simp
        next
          case sk3: (Cons q r4)
          have "length r4 < length s"
            using skip_ws_Cons_length [OF sk3] l3 by simp
          then have "JSONObject lib n room (pairs @ [(key, v)]) r4
              = JSONObject lib m room (pairs @ [(key, v)]) r4"
            by (rule obj)
          then show ?thesis
            using Some kr sk s1 Inr vr sk2 sk3 by simp
        qed
      qed
    qed
  qed
qed

lemma scan_fuel_aux:
  "(\<forall>m room s. 2 * length s + 1 \<le> n \<and> 2 * length s + 1 \<le> m
        \<longrightarrow> scan_once lib n room s = scan_once lib m room s)
   \<and> (\<forall>m room vals s. 2 * length s + 2 \<le> n \<and> 2 * length s + 2 \<le> m
        \<longrightarrow> JSONArray lib n room vals s = JSONArray lib m room vals s)
   \<and> (\<forall>m room pairs s. 2 * length s + 2 \<le> n \<and> 2 * length s + 2 \<le> m
        \<longrightarrow> JSONObject lib n room pairs s = JSONObject lib m room pairs s)"
proof (induction n)
  case 0
  show ?case by simp
next
  case (Suc n)
  have scan: "scan_once lib n room t = scan_once lib m room t"
    if "2 * length t + 1 \<le> n" "2 * length t + 1 \<le> m" for m room t
    using Suc that by blast
  have arr: "JSONArray lib n room vals t = JSONArray lib m room vals t"
    if "2 * length t + 2 \<le> n" "2 * length t + 2 \<le> m" for m room vals t
    using Suc that by blast
  have obj: "JSONObject lib n room pairs t = JSONObject lib m room pairs t"
    if "2 * length t + 2 \<le> n" "2 * length t + 2 \<le> m" for m room pairs t
    using Suc that by blast
  have "\<forall>m room s. 2 * length s + 1 \<le> Suc n \<and> 2 * length s + 1 \<le> m
      \<longrightarrow> scan_once lib (Suc n) room s = scan_once lib m room s"
  proof (intro allI impI)
    fix m room and s :: string
    assume b: "2 * length s + 1 \<le> Suc n \<and> 2 * length s + 1 \<le> m"
    then obtain m' where m: "m = Suc m'"
      by (cases m) auto
    have "scan_once lib (Suc n) room s = scan_once lib (Suc m') room s"
    proof (rule scan_once_Suc_fuel)
      fix room' vals and t :: string
      assume "length t < length s"
      then show "JSONArray lib n room' vals t = JSONArray lib m' room' vals t"
        using b m by (intro arr) simp_all
    next
      fix room' pairs and t :: string
      assume "length t < length s"
      then show "JSONObject lib n room' pairs t = JSONObject lib m' room' pairs t"
        using b m by (intro obj) simp_all
    qed
    then show "scan_once lib (Suc n) room s = scan_once lib m room s"
      using m by simp
  qed
  moreover have "\<forall>m room vals s. 2 * length s + 2 \<le> Suc n \<and> 2 * length s + 2 \<le> m
      \<longrightarrow> JSONArray lib (Suc n) room vals s = JSONArray lib m room vals s"
  proof (intro allI impI)
    fix m room vals and s :: string
    assume b: "2 * length s + 2 \<le> Suc n \<and> 2 * length s + 2 \<le> m"
    then obtain m' where m: "m = Suc m'"
      by (cases m) auto
    have "JSONArray lib (Suc n) room vals s = JSONArray lib (Suc m') room vals s"
    proof (rule JSONArray_Suc_fuel)
      show "scan_once lib n room s = scan_once lib m' room s"
        using b m by (intro scan) simp_all
    next
      fix vals' and t :: string
      assume "length t < length s"
      then show "JSONArray lib n room vals' t = JSONArray lib m' room vals' t"
        using b m by (intro arr) simp_all
    qed
    then show "JSONArray lib (Suc n) room vals s = JSONArray lib m room vals s"
      using m by simp
  qed
  moreover have "\<forall>m room pairs s. 2 * length s + 2 \<le> Suc n \<and> 2 * length s + 2 \<le> m
      \<longrightarrow> JSONObject lib (Suc n) room pairs s = JSONObject lib m room pairs s"
  proof (intro allI impI)
    fix m room pairs and s :: string
    assume b: "2 * length s + 2 \<le> Suc n \<and> 2 * length s + 2 \<le> m"
    then obtain m' where m: "m = Suc m'"
      by (cases m) auto
    have "JSONObject lib (Suc n) room pairs s = JSONObject lib (Suc m') room pairs s"
    proof (rule JSONObject_Suc_fuel)
      fix t :: string
      assume "length t < length s"
      then show "scan_once lib n room t = scan_once lib m' room t"
        using b m by (intro scan) simp_all
    next
      fix pairs' and t :: string
      assume "length t < length s"
      then show "JSONObject lib n room pairs' t = JSONObject lib m' room pairs' t"
        using b m by (intro obj) simp_all
    qed
    then show "JSONObject lib (Suc n) room pairs s = JSONObject lib m room pairs s"
      using m by simp
  qed
  ultimately show ?case by blast
qed

lemma scan_fuel:
  assumes "2 * length s + 1 \<le> n" and "2 * length s + 1 \<le> m"
  shows "scan_once lib n room s = scan_once lib m room s"
  using scan_fuel_aux [of n lib] assms by blast







section \<open>Lemmas about a whole run\<close>

lemma main_loaded:
  assumes "load_route_json lib w (route_path af) = Inr route"
    and "py_get route ''scenes'' (JArr []) = Inr sv"
    and "py_iter sv = Inr items"
  shows "main lib af w =
    (case main_loop lib (output_dir af) items [] w of
       (Inl e, w') \<Rightarrow> (Inl e, w')
     | (Inr ps, w') \<Rightarrow> (Inr (), py_print w' (summary_line (length ps) (output_dir af))))"
  using assms by (simp add: main_def)

lemma main_success_cases:
  assumes "main lib af w = (Inr (), W)"
  obtains route sv items ps w' where
    "load_route_json lib w (route_path af) = Inr route"
    "py_get route ''scenes'' (JArr []) = Inr sv"
    "py_iter sv = Inr items"
    "main_loop lib (output_dir af) items [] w = (Inr ps, w')"
    "W = py_print w' (summary_line (length ps) (output_dir af))"
proof -
  obtain route where 1: "load_route_json lib w (route_path af) = Inr route"
    using assms by (cases "load_route_json lib w (route_path af)") (auto simp: main_def)
  obtain sv where 2: "py_get route ''scenes'' (JArr []) = Inr sv"
    using assms 1 by (cases "py_get route ''scenes'' (JArr [])") (auto simp: main_def)
  obtain items where 3: "py_iter sv = Inr items"
    using assms 1 2 by (cases "py_iter sv") (auto simp: main_def)
  obtain r w' where 4: "main_loop lib (output_dir af) items [] w = (r, w')"
    by (cases "main_loop lib (output_dir af) items [] w") auto
  obtain ps where 5: "r = Inr ps"
    using assms 1 2 3 4 by (cases r) (auto simp: main_def)
  have "W = py_print w' (summary_line (length ps) (output_dir af))"
    using assms 1 2 3 4 5 by (simp add: main_def)
  with 1 2 3 4 5 that show ?thesis by blast
qed

lemma py_print_sel [simp]:
  "dirs (py_print w l) = dirs w" "files (py_print w l) = files w" "cwd (py_print w l) = cwd w"
  "stdout (py_print w l) = stdout w @ l @ [CHR 0x0A]"
  by (simp_all add: py_print_def)

text \<open>What a completed run has done, in terms of the scenes iterated.\<close>

lemma main_run:
  assumes load: "load_route_json lib w (route_path af) = Inr route"
    and get: "py_get route ''scenes'' (JArr []) = Inr sv"
    and iter: "py_iter sv = Inr items"
    and run: "main lib af w = (Inr (), W)"
  shows "stdout W = stdout w @ summary_line (length (filter has_id items)) (output_dir af) @ [CHR 0x0A]"
    and "files W = put_scenes lib W (output_dir af) (files w) items"
    and "dirs W = dirs (prepared w (output_dir af) items)"
    and "dirs w \<subseteq> dirs W" and "cwd W = cwd w"
    and "\<And>s. s \<in> set items \<Longrightarrow> has_id s \<Longrightarrow>
           locate W (scene_path lib (output_dir af) s) = Inr (scene_loc lib W (output_dir af) s)
           \<and> \<not> has_surrogate (json_dumps s)"
    and "\<And>wb. dirs wb = dirs W \<Longrightarrow> cwd wb = cwd W \<Longrightarrow>
           main_loop lib (output_dir af) items [] wb
             = (Inr (map (scene_path lib (output_dir af)) (filter has_id items)),
                wb\<lparr>files := put_scenes lib W (output_dir af) (files wb) items\<rparr>)"
proof -
  let ?dir = "output_dir af"
  obtain r w' where ml: "main_loop lib ?dir items [] w = (r, w')"
    by (cases "main_loop lib ?dir items [] w") auto
  obtain ps where r: "r = Inr ps"
    using run main_loaded [OF load get iter] ml by (cases r) auto
  have W: "W = py_print w' (summary_line (length ps) ?dir)"
    using run main_loaded [OF load get iter] ml r by simp
  note R = main_loop_run [OF ml [unfolded r]]
  have same: "dirs W = dirs w'" "cwd W = cwd w'"
    by (simp_all add: W)
  have ps: "put_scenes lib W ?dir = put_scenes lib w' ?dir"
    using same by (rule put_scenes_cong)
  have sl: "\<And>s. scene_loc lib W ?dir s = scene_loc lib w' ?dir s"
    using same by (rule scene_loc_cong)
  show "stdout W = stdout w @ summary_line (length (filter has_id items)) ?dir @ [CHR 0x0A]"
    using R(1,6) by (simp add: W)
  have "files W = files w'" by (simp add: W)
  also have "files w' = put_scenes lib w' ?dir (files w) items"
    using R(2) by (metis (no_types, lifting) world.select_convs(2) world.surjective world.update_convs(2))
  finally show "files W = put_scenes lib W ?dir (files w) items"
    by (simp add: ps)
  show "dirs W = dirs (prepared w ?dir items)" using R(3) same by simp
  show "dirs w \<subseteq> dirs W" using R(4) same by simp
  show "cwd W = cwd w" using R(5) same by simp
  show "locate W (scene_path lib ?dir s) = Inr (scene_loc lib W ?dir s)
      \<and> \<not> has_surrogate (json_dumps s)" if "s \<in> set items" "has_id s" for s
  proof -
    have l1: "locate w' (scene_path lib ?dir s) = Inr (scene_loc lib w' ?dir s)"
        and ns: "\<not> has_surrogate (json_dumps s)"
      using R(7) [OF that] by simp_all
    from l1 have "locate W (scene_path lib ?dir s) = Inr (scene_loc lib w' ?dir s)"
      by (rule locate_cong) (simp_all add: same)
    then show ?thesis using ns sl by simp
  qed
  show "main_loop lib ?dir items [] wb
      = (Inr (map (scene_path lib ?dir) (filter has_id items)),
         wb\<lparr>files := put_scenes lib W ?dir (files wb) items\<rparr>)"
    if "dirs wb = dirs W" "cwd wb = cwd W" for wb
    using R(8) [of wb] R(1) that same ps by simp
qed

lemma same_id_path: "same_id s t \<Longrightarrow> scene_path lib dir t = scene_path lib dir s"
  by (simp add: same_id_def scene_path_def)

lemma same_id_loc: "same_id s t \<Longrightarrow> scene_loc lib w dir t = scene_loc lib w dir s"
  by (simp add: scene_loc_def same_id_path [of s t])

lemma get_scenes: "map_of d ''scenes'' = Some (JArr scenes) \<Longrightarrow>
    py_get (JObj d) ''scenes'' (JArr []) = Inr (JArr scenes) \<and> py_iter (JArr scenes) = Inr scenes"
  by (simp add: py_get_def py_iter_def)

lemma run_pair: "fst (f x) = Inr () \<Longrightarrow> f x = (Inr (), snd (f x))"
  by (cases "f x") simp


lemma loads_empty_scenes:
  "json_loads lib ''{\"scenes\": []}'' = Inr (JObj [(''scenes'', JArr [])])"
  by code_simp

lemma main_nothing_to_write:
  assumes "load_route_json lib w (route_path af) = Inr (JObj d)"
    and "map_of d ''scenes'' = None \<or> map_of d ''scenes'' = Some (JArr [])"
  shows "main lib af w =
    (Inr (), w\<lparr>stdout := stdout w @ ''written 0 scene files to '' @ output_dir af @ [CHR 0x0A]\<rparr>)"
  using assms
  by (auto simp: main_def py_get_def py_iter_def py_print_def summary_line_def nat_repr_0)


lemma put_scenes_written:
  assumes "s \<in> set scenes" and "has_id s"
  shows "put_scenes lib w dir f scenes (scene_loc lib w dir s)
     = Some (scene_text (last (writers lib w dir scenes (scene_loc lib w dir s))))"
proof -
  have "s \<in> set (writers lib w dir scenes (scene_loc lib w dir s))"
    using assms by (simp add: writers_def)
  then have "writers lib w dir scenes (scene_loc lib w dir s) \<noteq> []"
    by auto
  then show ?thesis by (simp add: put_scenes_apply)
qed

lemma same_id_has_id: "same_id s t \<Longrightarrow> has_id t"
  by (simp add: same_id_def)

lemma shared_file_card:
  assumes "1 < length (filter (same_id s) scenes)"
  shows "card (scene_loc lib w dir ` set (filter has_id scenes)) < length (filter has_id scenes)"
proof -
  let ?ids = "filter has_id scenes"
  let ?same = "filter (same_id s) ?ids"
  let ?loc = "scene_loc lib w dir"
  have eq: "?same = filter (same_id s) scenes"
    by (auto simp: same_id_has_id intro: filter_cong)
  have "\<forall>y\<in>set (map ?loc ?same). y = ?loc s"
    by (auto simp: same_id_loc)
  then have "replicate (length (map ?loc ?same)) (?loc s) = map ?loc ?same"
    by (rule replicate_length_same)
  moreover have "\<not> distinct (replicate (length (map ?loc ?same)) (?loc s))"
  proof -
    have "1 < length (map ?loc ?same)"
      using assms eq by simp
    then have "length (map ?loc ?same) = Suc (Suc (length (map ?loc ?same) - 2))"
      by arith
    then have "replicate (length (map ?loc ?same)) (?loc s)
        = ?loc s # ?loc s # replicate (length (map ?loc ?same) - 2) (?loc s)"
      by (metis replicate_Suc)
    then show ?thesis by simp
  qed
  ultimately have "\<not> distinct (map ?loc ?same)" by simp
  then have nd: "\<not> distinct (map ?loc ?ids)"
    using distinct_map_filter by blast
  have "card (set (map ?loc ?ids)) \<le> length (map ?loc ?ids)"
    by (rule card_length)
  moreover have "card (set (map ?loc ?ids)) \<noteq> length (map ?loc ?ids)"
    using nd card_distinct by blast
  ultimately show ?thesis by simp
qed

lemma write_scene_file_written:
  assumes ok: "write_scene_file lib dir scene w = (Inr p, w')" and p: "p \<noteq> []"
  shows "has_id scene \<and> p = scene_path lib dir scene
     \<and> locate w' p = Inr (scene_loc lib w' dir scene)
     \<and> files w' (scene_loc lib w' dir scene) = Some (scene_text scene)
     \<and> \<not> has_surrogate (json_dumps scene)"
proof -
  from ok obtain d where s: "scene = JObj d"
    by (cases scene) (simp_all add: write_scene_file_unfold)
  have hid: "has_id scene"
    using ok p s by (auto simp: write_scene_file_unfold split: if_splits)
  obtain r w1 where m: "makedirs w dir = (r, w1)"
    by (cases "makedirs w dir") auto
  have r: "r = Inr ()"
    using ok hid s m by (cases r) (simp_all add: write_scene_file_unfold)
  obtain loc where loc: "locate w1 (scene_path lib dir scene) = Inr loc"
    using ok hid s m r
    by (cases "locate w1 (scene_path lib dir scene)") (simp_all add: write_scene_file_unfold)
  have ns: "\<not> has_surrogate (json_dumps scene)"
    using ok hid s m r loc by (auto simp: write_scene_file_unfold split: if_splits)
  have res: "p = scene_path lib dir scene"
      "w' = w1\<lparr>files := (files w1)(loc \<mapsto> scene_text scene)\<rparr>"
    using ok hid s m r loc ns by (simp_all add: write_scene_file_unfold)
  have l': "locate w' (scene_path lib dir scene) = Inr loc"
    using loc by (rule locate_cong) (simp_all add: res(2))
  then have sl: "scene_loc lib w' dir scene = loc"
    by (simp add: scene_loc_def)
  have "files w' loc = Some (scene_text scene)"
    by (simp add: res(2))
  then show ?thesis
    using hid res(1) l' sl ns by simp
qed

section \<open>Lemmas about the output format\<close>

lemma valid_utf8_append:
  "valid_utf8 a \<Longrightarrow> valid_utf8 (a @ b) = valid_utf8 b"
proof (induction a rule: valid_utf8.induct)
  case 1
  show ?case by simp
next
  case (2 c s)
  let ?n = "of_char c :: nat"
  consider (one) "?n < 0x80"
    | (two) "\<not> ?n < 0x80" "0xC2 \<le> ?n \<and> ?n \<le> 0xDF"
    | (three) "\<not> ?n < 0x80" "\<not> (0xC2 \<le> ?n \<and> ?n \<le> 0xDF)" "0xE0 \<le> ?n \<and> ?n \<le> 0xEF"
    | (four) "\<not> ?n < 0x80" "\<not> (0xC2 \<le> ?n \<and> ?n \<le> 0xDF)" "\<not> (0xE0 \<le> ?n \<and> ?n \<le> 0xEF)"
        "0xF0 \<le> ?n \<and> ?n \<le> 0xF4"
    | (bad) "\<not> ?n < 0x80" "\<not> (0xC2 \<le> ?n \<and> ?n \<le> 0xDF)" "\<not> (0xE0 \<le> ?n \<and> ?n \<le> 0xEF)"
        "\<not> (0xF0 \<le> ?n \<and> ?n \<le> 0xF4)"
    by blast
  then show ?case
  proof cases
    case one
    then show ?thesis
      using 2 by (simp add: Let_def)
  next
    case two
    then obtain b s' where s: "s = b # s'"
      using 2(5) by (cases s) (simp_all add: Let_def)
    show ?thesis
      using two 2(5) 2(2) [OF refl two(1) _ s] s by (simp add: Let_def)
  next
    case three
    then obtain b d s' where s: "s = b # d # s'"
      using 2(5) by (cases s; cases "tl s") (simp_all add: Let_def)
    show ?thesis
      using three 2(5) 2(3) [OF refl three(1) three(2) _ s] s by (simp add: Let_def)
  next
    case four
    then obtain b d e s' where s: "s = b # d # e # s'"
      using 2(5) by (cases s; cases "tl s"; cases "tl (tl s)") (simp_all add: Let_def)
    show ?thesis
      using four 2(5) 2(4) [OF refl four(1) four(2) four(3) _ s] s by (simp add: Let_def)
  next
    case bad
    then have "valid_utf8 (c # s) = False"
      by (simp only: valid_utf8.simps Let_def if_False)
    then show ?thesis
      using 2(5) by simp
  qed
qed


lemma valid_utf8_ascii:
  "\<forall>c\<in>set s. (of_char c :: nat) < 128 \<Longrightarrow> valid_utf8 s"
  by (induction s) (simp_all add: Let_def)

lemma valid_utf8_ascii_append:
  "\<forall>c\<in>set a. (of_char c :: nat) < 128 \<Longrightarrow> valid_utf8 (a @ b) = valid_utf8 b"
  by (induction a) (simp_all add: Let_def)

lemma escape_char_high:
  assumes "128 \<le> (of_char c :: nat)"
  shows "escape_char c = [c]"
proof -
  have "c \<noteq> CHR 0x5C" "c \<noteq> CHR 0x22" "c \<noteq> CHR 0x08" "c \<noteq> CHR 0x0C"
      "c \<noteq> CHR 0x0A" "c \<noteq> CHR 0x0D" "c \<noteq> CHR 0x09" "\<not> (of_char c :: nat) < 32"
    using assms by fastforce+
  then show ?thesis
    unfolding escape_char_def by simp
qed

lemma digit_char_ascii: "d < 16 \<Longrightarrow> (of_char (digit_char d) :: nat) < 128"
  using digit_char_decimal [of d] by (cases "d < 10") (auto simp: digit_char_def nth_Cons' )

lemma escape_char_ascii:
  assumes "(of_char c :: nat) < 128"
  shows "\<forall>d\<in>set (escape_char c). (of_char d :: nat) < 128"
  using assms digit_char_ascii [of "(of_char c :: nat) div 16"] digit_char_ascii [of "(of_char c :: nat) mod 16"]
  by (simp add: escape_char_def)


lemma valid_utf8_appendI: "valid_utf8 a \<Longrightarrow> valid_utf8 b \<Longrightarrow> valid_utf8 (a @ b)"
  by (simp add: valid_utf8_append)

lemma valid_utf8_escaped:
  "valid_utf8 s \<Longrightarrow> valid_utf8 (concat (map escape_char s))"
proof (induction s rule: valid_utf8.induct)
  case 1
  show ?case by simp
next
  case (2 c s)
  let ?n = "of_char c :: nat"
  consider (one) "?n < 0x80"
    | (two) "\<not> ?n < 0x80" "0xC2 \<le> ?n \<and> ?n \<le> 0xDF"
    | (three) "\<not> ?n < 0x80" "\<not> (0xC2 \<le> ?n \<and> ?n \<le> 0xDF)" "0xE0 \<le> ?n \<and> ?n \<le> 0xEF"
    | (four) "\<not> ?n < 0x80" "\<not> (0xC2 \<le> ?n \<and> ?n \<le> 0xDF)" "\<not> (0xE0 \<le> ?n \<and> ?n \<le> 0xEF)"
        "0xF0 \<le> ?n \<and> ?n \<le> 0xF4"
    | (bad) "\<not> ?n < 0x80" "\<not> (0xC2 \<le> ?n \<and> ?n \<le> 0xDF)" "\<not> (0xE0 \<le> ?n \<and> ?n \<le> 0xEF)"
        "\<not> (0xF0 \<le> ?n \<and> ?n \<le> 0xF4)"
    by blast
  then show ?case
  proof cases
    case one
    then have "valid_utf8 s"
      using 2(5) by (simp add: Let_def)
    then have "valid_utf8 (concat (map escape_char s))"
      using 2(1) [OF refl one] by simp
    then show ?thesis
      using escape_char_ascii [OF one] by (simp add: valid_utf8_ascii_append)
  next
    case two
    then obtain b s' where s: "s = b # s'"
      using 2(5) by (cases s) (simp_all add: Let_def)
    have v: "cont_byte b" "valid_utf8 s'"
      using two 2(5) s by (simp_all add: Let_def)
    have e: "escape_char c = [c]" "escape_char b = [b]"
      using two(1) v(1) by (simp_all add: escape_char_high cont_byte_def)
    have "valid_utf8 (concat (map escape_char s'))"
      using 2(2) [OF refl two(1) _ s] two(2) v(2) by simp
    then show ?thesis
      using two v(1) by (simp add: s e Let_def)
  next
    case three
    then obtain b d s' where s: "s = b # d # s'"
      using 2(5) by (cases s; cases "tl s") (simp_all add: Let_def)
    have v: "cont_byte b" "cont_byte d" "?n = 0xE0 \<longrightarrow> 0xA0 \<le> (of_char b :: nat)"
        "?n = 0xED \<longrightarrow> (of_char b :: nat) \<le> 0x9F" "valid_utf8 s'"
      using three 2(5) s by (simp_all add: Let_def)
    have e: "escape_char c = [c]" "escape_char b = [b]" "escape_char d = [d]"
      using three(1) v(1,2) by (simp_all add: escape_char_high cont_byte_def)
    have "valid_utf8 (concat (map escape_char s'))"
      using 2(3) [OF refl three(1) three(2) _ s] three(3) v(5) by simp
    then show ?thesis
      using three v(1-4) by (simp add: s e Let_def)
  next
    case four
    then obtain b d e s' where s: "s = b # d # e # s'"
      using 2(5) by (cases s; cases "tl s"; cases "tl (tl s)") (simp_all add: Let_def)
    have v: "cont_byte b" "cont_byte d" "cont_byte e" "?n = 0xF0 \<longrightarrow> 0x90 \<le> (of_char b :: nat)"
        "?n = 0xF4 \<longrightarrow> (of_char b :: nat) \<le> 0x8F" "valid_utf8 s'"
      using four 2(5) s by (simp_all add: Let_def)
    have e: "escape_char c = [c]" "escape_char b = [b]" "escape_char d = [d]" "escape_char e = [e]"
      using four(1) v(1,2,3) by (simp_all add: escape_char_high cont_byte_def)
    have "valid_utf8 (concat (map escape_char s'))"
      using 2(4) [OF refl four(1) four(2) four(3) _ s] four(4) v(6) by simp
    then show ?thesis
      using four v(1-5) by (simp add: s e Let_def)
  next
    case bad
    then have "valid_utf8 (c # s) = False"
      by (simp only: valid_utf8.simps Let_def if_False)
    then show ?thesis
      using 2(5) by simp
  qed
qed

lemma valid_utf8_basestring: "valid_utf8 s \<Longrightarrow> valid_utf8 (encode_basestring s)"
  by (simp add: encode_basestring_def Let_def valid_utf8_append valid_utf8_escaped)

lemma valid_utf8_nat_repr: "valid_utf8 (nat_repr n)"
proof -
  have "\<forall>c\<in>set (nat_repr n). is_digit c"
    using nat_repr_props [of n] by blast
  then have "\<forall>c\<in>set (nat_repr n). (of_char c :: nat) < 128"
    by (auto simp: is_digit_def)
  then show ?thesis
    by (rule valid_utf8_ascii)
qed

lemma valid_utf8_int_repr: "valid_utf8 (int_repr i)"
  by (simp add: int_repr_def valid_utf8_nat_repr Let_def)

lemma valid_utf8_floatstr: "valid_utf8 r \<Longrightarrow> valid_utf8 (floatstr r)"
  by (simp add: floatstr_def Let_def)

lemma valid_utf8_newline_indent: "valid_utf8 (newline_indent lvl @ t) = valid_utf8 t"
  by (rule valid_utf8_ascii_append) (simp add: newline_indent_def)

lemma valid_utf8_iterencode:
  "utf8_json v \<Longrightarrow> valid_utf8 (iterencode lvl v)"
  "utf8_list xs \<Longrightarrow> valid_utf8 (iterencode_list lvl first xs @ t) = valid_utf8 t"
  "utf8_dict kvs \<Longrightarrow> valid_utf8 (iterencode_dict lvl first kvs @ t) = valid_utf8 t"
proof (induction lvl v and lvl first xs and lvl first kvs arbitrary: and t and t
    rule: iterencode_iterencode_list_iterencode_dict.induct)
  case (1 lvl)
  show ?case by (simp add: Let_def)
next
  case (2 lvl b)
  show ?case by (simp add: Let_def)
next
  case (3 lvl i)
  show ?case by (simp add: valid_utf8_int_repr)
next
  case (4 lvl r)
  then show ?case by (simp add: valid_utf8_floatstr)
next
  case (5 lvl s)
  then show ?case by (simp add: valid_utf8_basestring)
next
  case (6 lvl xs)
  show ?case
  proof (cases "xs = []")
    case True
    then show ?thesis by (simp add: Let_def)
  next
    case False
    have "valid_utf8 (iterencode_list (Suc lvl) True xs @ newline_indent lvl @ '']'')
        = valid_utf8 (newline_indent lvl @ '']'')"
      using 6 False by simp
    then show ?thesis
      using False by (simp add: Let_def valid_utf8_newline_indent)
  qed
next
  case (7 lvl kvs)
  show ?case
  proof (cases "kvs = []")
    case True
    then show ?thesis by (simp add: Let_def)
  next
    case False
    have "valid_utf8 (iterencode_dict (Suc lvl) True kvs @ newline_indent lvl @ ''}'')
        = valid_utf8 (newline_indent lvl @ ''}'')"
      using 7 False by simp
    then show ?thesis
      using False by (simp add: Let_def valid_utf8_newline_indent)
  qed
next
  case (8 lvl first)
  show ?case by simp
next
  case (9 lvl first v vs)
  have a: "valid_utf8 (iterencode lvl v)" and b: "utf8_list vs"
    using 9 by simp_all
  have "valid_utf8 (iterencode lvl v @ iterencode_list lvl False vs @ t) = valid_utf8 t"
    using 9(2) [OF b] by (simp add: valid_utf8_append [OF a])
  then show ?case
    by (simp add: Let_def valid_utf8_newline_indent)
next
  case (10 lvl first)
  show ?case by simp
next
  case (11 lvl first kv kvs)
  have a: "valid_utf8 (iterencode lvl (snd kv))" and b: "utf8_dict kvs"
    and k: "valid_utf8 (encode_basestring (fst kv))"
    using 11 by (simp_all add: valid_utf8_basestring)
  have "valid_utf8 (iterencode lvl (snd kv) @ iterencode_dict lvl False kvs @ t) = valid_utf8 t"
    using 11(2) [OF b] by (simp add: valid_utf8_append [OF a])
  then have "valid_utf8 (encode_basestring (fst kv) @ '': '' @ iterencode lvl (snd kv)
      @ iterencode_dict lvl False kvs @ t) = valid_utf8 t"
    by (simp add: valid_utf8_append [OF k] Let_def)
  then show ?case
    by (simp add: Let_def valid_utf8_newline_indent)
qed

lemma valid_utf8_scene_text: "utf8_json v \<Longrightarrow> valid_utf8 (json_dumps v @ [CHR 0x0A])"
  by (simp add: json_dumps_def valid_utf8_append valid_utf8_iterencode(1) Let_def)

lemma newline_indent_indent: "newline_indent lvl = CHR 0x0A # indent lvl"
  by (simp add: newline_indent_def indent_def)

lemma join_lines_Cons:
  "join_lines (l # ls) = l @ (if ls = [] then [] else '','' @ [CHR 0x0A] @ join_lines ls)"
  by (cases ls) simp_all

lemma pretty_items_Nil [simp]: "(pretty_items lvl xs = []) = (xs = [])"
  by (cases xs) simp_all

lemma pretty_members_Nil [simp]: "(pretty_members lvl kvs = []) = (kvs = [])"
  by (cases kvs) simp_all

lemma iterencode_pretty_aux:
  "iterencode lvl v = pretty lvl v"
  "iterencode_list lvl first xs =
     (if xs = [] then []
      else (if first then [] else '','') @ [CHR 0x0A] @ join_lines (pretty_items lvl xs))"
  "iterencode_dict lvl first kvs =
     (if kvs = [] then []
      else (if first then [] else '','') @ [CHR 0x0A] @ join_lines (pretty_members lvl kvs))"
proof (induction lvl v and lvl first xs and lvl first kvs
    rule: iterencode_iterencode_list_iterencode_dict.induct)
  case (1 lvl)
  show ?case by simp
next
  case (2 lvl b)
  show ?case by simp
next
  case (3 lvl i)
  show ?case by simp
next
  case (4 lvl r)
  show ?case by simp
next
  case (5 lvl s)
  show ?case by simp
next
  case (6 lvl xs)
  show ?case
  proof (cases "xs = []")
    case True
    then show ?thesis by simp
  next
    case False
    have "iterencode_list (Suc lvl) True xs
        = [CHR 0x0A] @ join_lines (pretty_items (Suc lvl) xs)"
      using 6 [OF False] False by simp
    then show ?thesis
      using False by (simp add: newline_indent_indent)
  qed
next
  case (7 lvl kvs)
  show ?case
  proof (cases "kvs = []")
    case True
    then show ?thesis by simp
  next
    case False
    have "iterencode_dict (Suc lvl) True kvs
        = [CHR 0x0A] @ join_lines (pretty_members (Suc lvl) kvs)"
      using 7 [OF False] False by simp
    then show ?thesis
      using False by (simp add: newline_indent_indent)
  qed
next
  case (8 lvl first)
  show ?case by simp
next
  case (9 lvl first v vs)
  have "iterencode_list lvl first (v # vs)
      = (if first then newline_indent lvl else '','' @ newline_indent lvl)
        @ pretty lvl v
        @ (if vs = [] then [] else '','' @ [CHR 0x0A] @ join_lines (pretty_items lvl vs))"
    unfolding iterencode_list.simps 9 by simp
  then show ?case
    by (simp add: join_lines_Cons newline_indent_indent)
next
  case (10 lvl first)
  show ?case by simp
next
  case (11 lvl first kv kvs)
  have "iterencode_dict lvl first (kv # kvs)
      = (if first then newline_indent lvl else '','' @ newline_indent lvl)
        @ encode_basestring (fst kv) @ '': '' @ pretty lvl (snd kv)
        @ (if kvs = [] then [] else '','' @ [CHR 0x0A] @ join_lines (pretty_members lvl kvs))"
    unfolding iterencode_dict.simps 11 by simp
  then show ?case
    by (simp add: join_lines_Cons newline_indent_indent)
qed

lemma iterencode_pretty: "iterencode lvl v = pretty lvl v"
  by (rule iterencode_pretty_aux)

lemma json_dumps_pretty: "json_dumps v = pretty 0 v"
  by (simp add: json_dumps_def iterencode_pretty)

lemma encode_basestring_high:
  assumes "\<forall>c\<in>set s. 128 \<le> (of_char c :: nat)"
  shows "encode_basestring s = CHR 0x22 # s @ [CHR 0x22]"
proof -
  have "concat (map escape_char s) = s"
    using assms by (induction s) (simp_all add: escape_char_high)
  then show ?thesis
    by (simp add: encode_basestring_def)
qed

section \<open>Lemmas about deeply nested scenes\<close>





section \<open>Properties\<close>

subsection \<open>A scene without an identifier is skipped\<close>

text \<open>
  C2. For a scene (a dict) whose \<^verbatim>\<open>scene_id\<close> is absent, or present but empty (the empty
  string, and likewise any other falsy value), \<^verbatim>\<open>write_scene_file\<close> returns the empty string,
  raises nothing and leaves the world as it was: no directory is created and no file is
  written.
\<close>

theorem write_scene_file_skips:
  assumes "map_of d ''scene_id'' = None \<or> (\<exists>v. map_of d ''scene_id'' = Some v \<and> \<not> truthy v)"
  shows "write_scene_file lib dir (JObj d) w = (Inr [], w)"
  using assms by (auto simp: write_scene_file_def py_get_def)

theorem write_scene_file_skips_witness:
  "write_scene_file demo_lib ''/proj/out'' (JObj [(''text'', JStr ''no id'')]) (demo_world [])
     = (Inr [], demo_world [])
   \<and> write_scene_file demo_lib ''/proj/out'' (JObj [(''scene_id'', JStr []), (''text'', JStr ''x'')])
       (demo_world []) = (Inr [], demo_world [])"
proof -
  have a: "map_of [(''text'', JStr ''no id'')] ''scene_id'' = None
      \<or> (\<exists>v. map_of [(''text'', JStr ''no id'')] ''scene_id'' = Some v \<and> \<not> truthy v)"
    by simp
  have b: "map_of [(''scene_id'', JStr []), (''text'', JStr ''x'')] ''scene_id'' = None
      \<or> (\<exists>v. map_of [(''scene_id'', JStr []), (''text'', JStr ''x'')] ''scene_id'' = Some v
            \<and> \<not> truthy v)"
    by simp
  show ?thesis
    using write_scene_file_skips [OF a] write_scene_file_skips [OF b] by simp
qed

subsection \<open>What a completed run wrote and reported\<close>

text \<open>
  C1 (as amended). For a route document whose \<^verbatim>\<open>scenes\<close> list holds \<open>N\<close> scenes with a truthy
  \<^verbatim>\<open>scene_id\<close> (and any number without), a run that completes prints exactly the line
  \<^verbatim>\<open>written N scene files to <output_dir>\<close>, and has performed exactly \<open>N\<close> writes, one per
  such scene in list order, each to the file its derived path names. The files written are
  those \<open>N\<close> locations: \<open>N\<close> files when they are pairwise different, fewer when scenes share
  a file. The scenes without an identifier leave no trace.
\<close>

theorem main_reports_count:
  assumes load: "load_route_json lib w (route_path af) = Inr (JObj d)"
    and sc: "map_of d ''scenes'' = Some (JArr scenes)"
    and run: "main lib af w = (Inr (), w')"
  shows "stdout w' = stdout w @ ''written '' @ nat_repr (length (filter has_id scenes))
             @ '' scene files to '' @ output_dir af @ [CHR 0x0A]
     \<and> files w' = put_scenes lib w' (output_dir af) (files w) scenes
     \<and> dom (files w') = dom (files w) \<union> scene_loc lib w' (output_dir af) ` set (filter has_id scenes)
     \<and> (\<forall>s\<in>set (filter has_id scenes).
           locate w' (scene_path lib (output_dir af) s) = Inr (scene_loc lib w' (output_dir af) s))
     \<and> card (scene_loc lib w' (output_dir af) ` set (filter has_id scenes))
           \<le> length (filter has_id scenes)
     \<and> (distinct (map (scene_loc lib w' (output_dir af)) (filter has_id scenes)) \<longrightarrow>
           card (scene_loc lib w' (output_dir af) ` set (filter has_id scenes))
             = length (filter has_id scenes))"
proof -
  note g = get_scenes [OF sc]
  note R = main_run [OF load g [THEN conjunct1] g [THEN conjunct2] run]
  let ?ids = "filter has_id scenes"
  let ?loc = "scene_loc lib w' (output_dir af)"
  have 1: "stdout w' = stdout w @ ''written '' @ nat_repr (length ?ids)
             @ '' scene files to '' @ output_dir af @ [CHR 0x0A]"
    using R(1) by (simp add: summary_line_def)
  have 2: "files w' = put_scenes lib w' (output_dir af) (files w) scenes"
    by (rule R(2))
  have 3: "dom (files w') = dom (files w) \<union> ?loc ` set ?ids"
    by (subst 2) (rule put_scenes_dom)
  have 4: "\<forall>s\<in>set ?ids. locate w' (scene_path lib (output_dir af) s) = Inr (?loc s)"
    using R(6) by simp
  have 5: "card (?loc ` set ?ids) \<le> length ?ids"
    by (metis card_length length_map set_map)
  have 6: "distinct (map ?loc ?ids) \<longrightarrow> card (?loc ` set ?ids) = length ?ids"
    by (metis distinct_card length_map set_map)
  show ?thesis using 1 2 3 4 5 6 by blast
qed


theorem main_reports_count_witness:
  "stdout (snd (main demo_lib demo_file (demo_world route_mixed)))
     = ''written 2 scene files to /proj/data/route_gu_wan_scenes'' @ [CHR 0x0A]
   \<and> dom (files (snd (main demo_lib demo_file (demo_world route_mixed))))
     = {[''proj'', ''data'', ''route_gu_wan.json''],
        [''proj'', ''data'', ''route_gu_wan_scenes'', ''s1.json''],
        [''proj'', ''data'', ''route_gu_wan_scenes'', ''s2.json'']}"
proof -
  let ?w = "demo_world route_mixed"
  let ?W = "snd (main demo_lib demo_file ?w)"
  let ?a = "JObj [(''scene_id'', JStr ''s1''), (''text'', JStr ''hello'')]"
  let ?b = "JObj [(''text'', JStr ''no id'')]"
  let ?c = "JObj [(''scene_id'', JStr ''s2'')]"
  have load: "load_route_json demo_lib ?w (route_path demo_file)
      = Inr (JObj [(''scenes'', JArr [?a, ?b, ?c])])"
    by code_simp
  have sc: "map_of [(''scenes'', JArr [?a, ?b, ?c])] ''scenes'' = Some (JArr [?a, ?b, ?c])"
    by simp
  have "fst (main demo_lib demo_file ?w) = Inr ()"
    by code_simp
  then have run: "main demo_lib demo_file ?w = (Inr (), ?W)"
    by (rule run_pair)
  have ids: "filter has_id [?a, ?b, ?c] = [?a, ?c]"
    by (simp add: has_id_def)
  have n: "nat_repr (Suc (Suc 0)) = ''2''"
    by (simp add: nat_repr.simps digit_char_def)
  have dir: "output_dir demo_file = ''/proj/data/route_gu_wan_scenes''"
    by code_simp
  have la: "scene_loc demo_lib ?W (output_dir demo_file) ?a
      = [''proj'', ''data'', ''route_gu_wan_scenes'', ''s1.json'']"
    by code_simp
  have lc: "scene_loc demo_lib ?W (output_dir demo_file) ?c
      = [''proj'', ''data'', ''route_gu_wan_scenes'', ''s2.json'']"
    by code_simp
  have d0: "dom (files ?w) = {[''proj'', ''data'', ''route_gu_wan.json'']}"
    by (simp add: demo_world_def)
  have s0: "stdout ?w = []"
    by (simp add: demo_world_def)
  note T = main_reports_count [OF load sc run]
  have c1: "stdout ?W = stdout ?w @ ''written '' @ nat_repr (length (filter has_id [?a, ?b, ?c]))
             @ '' scene files to '' @ output_dir demo_file @ [CHR 0x0A]"
    using T by (rule conjunct1)
  have c3: "dom (files ?W) = dom (files ?w)
      \<union> scene_loc demo_lib ?W (output_dir demo_file) ` set (filter has_id [?a, ?b, ?c])"
    using T by blast
  have r1: "stdout ?W = ''written 2 scene files to /proj/data/route_gu_wan_scenes'' @ [CHR 0x0A]"
    unfolding c1 ids s0 dir by (simp add: n)
  have r2: "dom (files ?W) = {[''proj'', ''data'', ''route_gu_wan.json''],
        [''proj'', ''data'', ''route_gu_wan_scenes'', ''s1.json''],
        [''proj'', ''data'', ''route_gu_wan_scenes'', ''s2.json'']}"
    unfolding c3 ids d0 by (simp add: la lc insert_commute)
  show ?thesis
    using r1 r2 by (rule conjI)
qed

text \<open>
  The claim as stated (exactly \<open>N\<close> output files) fails when two scenes share an
  identifier: the run reports 2 and leaves one output file beside the input.
\<close>

theorem main_same_id_one_file:
  "load_route_json demo_lib (demo_world route_twice) (route_path demo_file)
     = Inr (JObj [(''scenes'',
          JArr [JObj [(''scene_id'', JStr ''s1''), (''text'', JStr ''a'')],
                JObj [(''scene_id'', JStr ''s1''), (''text'', JStr ''b'')]])])
   \<and> length (filter has_id
          [JObj [(''scene_id'', JStr ''s1''), (''text'', JStr ''a'')],
           JObj [(''scene_id'', JStr ''s1''), (''text'', JStr ''b'')]]) = 2
   \<and> fst (main demo_lib demo_file (demo_world route_twice)) = Inr ()
   \<and> stdout (snd (main demo_lib demo_file (demo_world route_twice)))
     = ''written 2 scene files to /proj/data/route_gu_wan_scenes'' @ [CHR 0x0A]
   \<and> dom (files (snd (main demo_lib demo_file (demo_world route_twice))))
     = {[''proj'', ''data'', ''route_gu_wan.json''],
        [''proj'', ''data'', ''route_gu_wan_scenes'', ''s1.json'']}"
proof -
  let ?w = "demo_world route_twice"
  let ?W = "snd (main demo_lib demo_file ?w)"
  let ?a = "JObj [(''scene_id'', JStr ''s1''), (''text'', JStr ''a'')]"
  let ?b = "JObj [(''scene_id'', JStr ''s1''), (''text'', JStr ''b'')]"
  have load: "load_route_json demo_lib ?w (route_path demo_file)
      = Inr (JObj [(''scenes'', JArr [?a, ?b])])"
    by code_simp
  note g = get_scenes [of "[(''scenes'', JArr [?a, ?b])]" "[?a, ?b]", simplified]
  have ok: "fst (main demo_lib demo_file ?w) = Inr ()"
    by code_simp
  then have run: "main demo_lib demo_file ?w = (Inr (), ?W)"
    by (rule run_pair)
  have ids: "filter has_id [?a, ?b] = [?a, ?b]"
    by (simp add: has_id_def)
  have out: "stdout ?W = ''written 2 scene files to /proj/data/route_gu_wan_scenes'' @ [CHR 0x0A]"
    by code_simp
  have la: "scene_loc demo_lib ?W (output_dir demo_file) ?a
      = [''proj'', ''data'', ''route_gu_wan_scenes'', ''s1.json'']"
    by code_simp
  have lb: "scene_loc demo_lib ?W (output_dir demo_file) ?b
      = [''proj'', ''data'', ''route_gu_wan_scenes'', ''s1.json'']"
    by code_simp
  have d0: "dom (files ?w) = {[''proj'', ''data'', ''route_gu_wan.json'']}"
    by (simp add: demo_world_def)
  have "files ?W = put_scenes demo_lib ?W (output_dir demo_file) (files ?w) [?a, ?b]"
    by (rule main_run(2) [OF load g [THEN conjunct1] g [THEN conjunct2] run])
  then have "dom (files ?W) = dom (files ?w)
      \<union> scene_loc demo_lib ?W (output_dir demo_file) ` set (filter has_id [?a, ?b])"
    by (simp only: put_scenes_dom)
  then have r2: "dom (files ?W) = {[''proj'', ''data'', ''route_gu_wan.json''],
        [''proj'', ''data'', ''route_gu_wan_scenes'', ''s1.json'']}"
    unfolding ids d0 by (simp add: la lb insert_commute)
  have len: "length (filter has_id [?a, ?b]) = 2"
    unfolding ids by simp
  show ?thesis
    by (intro conjI) (rule load len ok out r2)+
qed

subsection \<open>A route without scenes\<close>

text \<open>
  C7. For a route document that is a JSON object without the key \<^verbatim>\<open>scenes\<close>, the scenes are
  taken to be the empty list: the run completes, changes neither files nor directories, and
  reports the count 0.
\<close>

theorem main_without_scenes_key:
  assumes "load_route_json lib w (route_path af) = Inr (JObj d)"
    and "map_of d ''scenes'' = None"
  shows "main lib af w =
    (Inr (), w\<lparr>stdout := stdout w @ ''written 0 scene files to '' @ output_dir af @ [CHR 0x0A]\<rparr>)"
  using assms by (simp add: main_nothing_to_write)

theorem main_without_scenes_key_witness:
  "main demo_lib demo_file (demo_world ''{\"title\": \"gu wan\"}'') =
    (Inr (), (demo_world ''{\"title\": \"gu wan\"}'')
       \<lparr>stdout := ''written 0 scene files to /proj/data/route_gu_wan_scenes'' @ [CHR 0x0A]\<rparr>)"
proof -
  let ?w = "demo_world ''{\"title\": \"gu wan\"}''"
  have load: "load_route_json demo_lib ?w (route_path demo_file)
      = Inr (JObj [(''title'', JStr ''gu wan'')])"
    by code_simp
  have key: "map_of [(''title'', JStr ''gu wan'')] ''scenes'' = None"
    by simp
  have dir: "output_dir demo_file = ''/proj/data/route_gu_wan_scenes''"
    by code_simp
  have s0: "stdout ?w = []"
    by (simp add: demo_world_def)
  show ?thesis
    using main_without_scenes_key [OF load key] by (simp add: dir s0)
qed

text \<open>
  C8. For the input \<^verbatim>\<open>{"scenes": []}\<close> the run writes no file and does not create the output
  directory (\<^verbatim>\<open>os.makedirs\<close> is called in \<^verbatim>\<open>write_scene_file\<close> only, which no scene reaches):
  the world after the run is the world before it, with the summary line printed.
\<close>

theorem main_empty_scenes:
  assumes "read_text w (route_path af) = Inr ''{\"scenes\": []}''"
  shows "main lib af w =
      (Inr (), w\<lparr>stdout := stdout w @ ''written 0 scene files to '' @ output_dir af @ [CHR 0x0A]\<rparr>)
    \<and> dirs (snd (main lib af w)) = dirs w
    \<and> files (snd (main lib af w)) = files w"
proof -
  have "load_route_json lib w (route_path af) = Inr (JObj [(''scenes'', JArr [])])"
    using assms by (simp add: load_route_json_def loads_empty_scenes)
  then have "main lib af w =
      (Inr (), w\<lparr>stdout := stdout w @ ''written 0 scene files to '' @ output_dir af @ [CHR 0x0A]\<rparr>)"
    by (rule main_nothing_to_write) simp
  then show ?thesis by simp
qed

theorem main_empty_scenes_witness:
  "fst (main demo_lib demo_file (demo_world ''{\"scenes\": []}'')) = Inr ()
   \<and> stdout (snd (main demo_lib demo_file (demo_world ''{\"scenes\": []}'')))
       = ''written 0 scene files to /proj/data/route_gu_wan_scenes'' @ [CHR 0x0A]
   \<and> [''proj'', ''data'', ''route_gu_wan_scenes'']
       \<notin> dirs (snd (main demo_lib demo_file (demo_world ''{\"scenes\": []}'')))
   \<and> dom (files (snd (main demo_lib demo_file (demo_world ''{\"scenes\": []}''))))
       = {[''proj'', ''data'', ''route_gu_wan.json'']}"
proof -
  let ?w = "demo_world ''{\"scenes\": []}''"
  have rd: "read_text ?w (route_path demo_file) = Inr ''{\"scenes\": []}''"
    by code_simp
  have dir: "output_dir demo_file = ''/proj/data/route_gu_wan_scenes''"
    by code_simp
  have s0: "stdout ?w = []"
    and d0: "[''proj'', ''data'', ''route_gu_wan_scenes''] \<notin> dirs ?w"
    and f0: "dom (files ?w) = {[''proj'', ''data'', ''route_gu_wan.json'']}"
    by (simp_all add: demo_world_def)
  note T = main_empty_scenes [OF rd, of demo_lib]
  have m: "main demo_lib demo_file ?w =
      (Inr (), ?w\<lparr>stdout := stdout ?w @ ''written 0 scene files to '' @ output_dir demo_file @ [CHR 0x0A]\<rparr>)"
    using T by (rule conjunct1)
  show ?thesis
    unfolding m using s0 d0 f0 by (simp add: dir)
qed

subsection \<open>The path derived for a scene\<close>

text \<open>
  C5 (as amended). For a scene with a truthy \<^verbatim>\<open>scene_id\<close>, a successful \<^verbatim>\<open>write_scene_file\<close>
  returns the path \<^verbatim>\<open>os.path.join(output_dir, f"{scene_id}.json")\<close>, with no sanitization of
  the identifier. For a string identifier that does not start with \<^verbatim>\<open>/\<close> this is
  \<^verbatim>\<open><output_dir>/<scene_id>.json\<close> (no separator is added when \<^verbatim>\<open>output_dir\<close> ends in one),
  whatever separators and \<^verbatim>\<open>../\<close> the identifier holds; for one that starts with \<^verbatim>\<open>/\<close> it
  is \<^verbatim>\<open><scene_id>.json\<close> alone, and the output directory is not part of the path.
\<close>

theorem write_scene_file_path:
  assumes "write_scene_file lib dir (JObj d) w = (Inr p, w')"
    and "map_of d ''scene_id'' = Some sid" and "truthy sid"
  shows "p = path_join dir (py_str lib sid @ ''.json'')
     \<and> dir \<noteq> []
     \<and> (\<forall>x. sid = JStr x \<and> hd x \<noteq> CHR ''/'' \<longrightarrow>
           p = dir @ (if last dir = CHR ''/'' then [] else ''/'') @ x @ ''.json'')
     \<and> (\<forall>x. sid = JStr (CHR ''/'' # x) \<longrightarrow> p = CHR ''/'' # x @ ''.json'')"
proof -
  have hid: "has_id (JObj d)"
    using assms(2,3) by (simp add: has_id_def)
  have sp: "scene_path lib dir (JObj d) = path_join dir (py_str lib sid @ ''.json'')"
    using assms(2) by (simp add: scene_path_def py_get_def)
  obtain r w1 where m: "makedirs w dir = (r, w1)"
    by (cases "makedirs w dir") auto
  have r: "r = Inr ()"
    using assms(1) hid m by (cases r) (simp_all add: write_scene_file_unfold)
  have ne: "dir \<noteq> []"
    using m r by (auto simp: makedirs_def)
  have p: "p = path_join dir (py_str lib sid @ ''.json'')"
    using assms(1) hid m r sp
    by (auto simp: write_scene_file_unfold split: sum.splits if_splits)
  have a: "p = dir @ (if last dir = CHR ''/'' then [] else ''/'') @ x @ ''.json''"
    if "sid = JStr x" "hd x \<noteq> CHR ''/''" for x
  proof -
    have "x \<noteq> []" using that(1) assms(3) by simp
    then have "hd (x @ ''.json'') \<noteq> CHR ''/''" using that(2) by simp
    then show ?thesis
      using p that(1) ne by (simp add: path_join_def)
  qed
  have b: "p = CHR ''/'' # x @ ''.json''" if "sid = JStr (CHR ''/'' # x)" for x
    using p that by (simp add: path_join_def)
  show ?thesis using p ne a b by blast
qed

theorem write_scene_file_path_witness:
  "fst (write_scene_file demo_lib ''/proj/out'' (JObj [(''scene_id'', JStr ''../s1'')]) (demo_world []))
     = Inr ''/proj/out/../s1.json''"
proof -
  let ?r = "write_scene_file demo_lib ''/proj/out'' (JObj [(''scene_id'', JStr ''../s1'')]) (demo_world [])"
  have ok: "fst ?r = Inr (path_join ''/proj/out'' (py_str demo_lib (JStr ''../s1'') @ ''.json''))"
    by code_simp
  then have run: "?r = (Inr (path_join ''/proj/out'' (py_str demo_lib (JStr ''../s1'') @ ''.json'')), snd ?r)"
    by (cases ?r) simp
  have sid: "map_of [(''scene_id'', JStr ''../s1'')] ''scene_id'' = Some (JStr ''../s1'')"
    by simp
  have t: "truthy (JStr ''../s1'')" by simp
  from write_scene_file_path [OF run sid t]
  have "\<forall>x. JStr ''../s1'' = JStr x \<and> hd x \<noteq> CHR ''/'' \<longrightarrow>
      path_join ''/proj/out'' (py_str demo_lib (JStr ''../s1'') @ ''.json'')
        = ''/proj/out'' @ (if last ''/proj/out'' = CHR ''/'' then [] else ''/'') @ x @ ''.json''"
    by blast
  then have "path_join ''/proj/out'' (py_str demo_lib (JStr ''../s1'') @ ''.json'')
      = ''/proj/out/../s1.json''"
    by simp
  with ok show ?thesis by simp
qed

text \<open>
  The claim as stated fails for the identifier \<^verbatim>\<open>/tmp/x\<close>: the path returned is
  \<^verbatim>\<open>/tmp/x.json\<close>, not \<^verbatim>\<open>/proj/out//tmp/x.json\<close>, and the file is written under \<^verbatim>\<open>/tmp\<close>.
\<close>

theorem write_scene_file_absolute_id:
  "fst (write_scene_file demo_lib ''/proj/out'' (JObj [(''scene_id'', JStr ''/tmp/x'')]) (demo_world []))
     = Inr ''/tmp/x.json''
   \<and> ''/tmp/x.json'' \<noteq> ''/proj/out'' @ ''/'' @ ''/tmp/x'' @ ''.json''
   \<and> files (snd (write_scene_file demo_lib ''/proj/out'' (JObj [(''scene_id'', JStr ''/tmp/x'')])
        (demo_world []))) [''tmp'', ''x.json'']
       = Some (scene_text (JObj [(''scene_id'', JStr ''/tmp/x'')]))
   \<and> files (snd (write_scene_file demo_lib ''/proj/out'' (JObj [(''scene_id'', JStr ''/tmp/x'')])
        (demo_world []))) [''proj'', ''out'', ''tmp'', ''x.json''] = None"
  by code_simp

subsection \<open>Scenes that share a file\<close>

text \<open>
  C10 (as amended). In a completed run, the scenes with the same truthy \<^verbatim>\<open>scene_id\<close> as a
  scene \<open>s\<close> have the same derived path and are written, in list order, to the file it
  names. That file finally holds the serialization of the last scene of the list written
  to it: the last scene with that identifier, provided no scene with another identifier
  names the same file. The reported count counts every write, so it exceeds the number of
  files written as soon as two scenes share an identifier.
\<close>

theorem last_write_wins:
  assumes load: "load_route_json lib w (route_path af) = Inr (JObj d)"
    and sc: "map_of d ''scenes'' = Some (JArr scenes)"
    and run: "main lib af w = (Inr (), w')"
    and s: "s \<in> set scenes" and hid: "has_id s"
  shows "(\<forall>t\<in>set scenes. same_id s t \<longrightarrow>
            scene_path lib (output_dir af) t = scene_path lib (output_dir af) s
            \<and> t \<in> set (writers lib w' (output_dir af) scenes (scene_loc lib w' (output_dir af) s)))
     \<and> locate w' (scene_path lib (output_dir af) s) = Inr (scene_loc lib w' (output_dir af) s)
     \<and> files w' (scene_loc lib w' (output_dir af) s)
         = Some (scene_text (last (writers lib w' (output_dir af) scenes
                                     (scene_loc lib w' (output_dir af) s))))
     \<and> ((\<forall>t\<in>set (writers lib w' (output_dir af) scenes (scene_loc lib w' (output_dir af) s)).
            same_id s t) \<longrightarrow>
          files w' (scene_loc lib w' (output_dir af) s)
            = Some (scene_text (last (filter (same_id s) scenes))))
     \<and> stdout w' = stdout w @ ''written '' @ nat_repr (length (filter has_id scenes))
             @ '' scene files to '' @ output_dir af @ [CHR 0x0A]
     \<and> (1 < length (filter (same_id s) scenes) \<longrightarrow>
          card (scene_loc lib w' (output_dir af) ` set (filter has_id scenes))
            < length (filter has_id scenes))"
proof -
  let ?dir = "output_dir af"
  let ?loc = "scene_loc lib w' ?dir"
  let ?ws = "writers lib w' ?dir scenes (?loc s)"
  note g = get_scenes [OF sc]
  note R = main_run [OF load g [THEN conjunct1] g [THEN conjunct2] run]
  have 1: "\<forall>t\<in>set scenes. same_id s t \<longrightarrow>
      scene_path lib ?dir t = scene_path lib ?dir s \<and> t \<in> set ?ws"
    by (auto simp: writers_def same_id_path same_id_loc same_id_has_id)
  have 2: "locate w' (scene_path lib ?dir s) = Inr (?loc s)"
    using R(6) [OF s hid] by simp
  have 3: "files w' (?loc s) = Some (scene_text (last ?ws))"
    by (subst R(2)) (rule put_scenes_written [OF s hid])
  have 4: "files w' (?loc s) = Some (scene_text (last (filter (same_id s) scenes)))"
    if all: "\<forall>t\<in>set ?ws. same_id s t"
  proof -
    have "?ws = filter (same_id s) scenes"
      unfolding writers_def
    proof (rule filter_cong [OF refl])
      fix t assume "t \<in> set scenes"
      then show "(has_id t \<and> ?loc t = ?loc s) = same_id s t"
        using all by (auto simp: writers_def same_id_loc same_id_has_id)
    qed
    with 3 show ?thesis by simp
  qed
  have 5: "stdout w' = stdout w @ ''written '' @ nat_repr (length (filter has_id scenes))
             @ '' scene files to '' @ ?dir @ [CHR 0x0A]"
    using R(1) by (simp add: summary_line_def)
  have 6: "1 < length (filter (same_id s) scenes) \<longrightarrow>
      card (?loc ` set (filter has_id scenes)) < length (filter has_id scenes)"
    using shared_file_card by blast
  show ?thesis using 1 2 3 4 5 6 by blast
qed


theorem last_write_wins_witness:
  "files (snd (main demo_lib demo_file (demo_world route_twice)))
      [''proj'', ''data'', ''route_gu_wan_scenes'', ''s1.json'']
     = Some (scene_text (JObj [(''scene_id'', JStr ''s1''), (''text'', JStr ''b'')]))
   \<and> stdout (snd (main demo_lib demo_file (demo_world route_twice)))
     = ''written 2 scene files to /proj/data/route_gu_wan_scenes'' @ [CHR 0x0A]
   \<and> card (scene_loc demo_lib (snd (main demo_lib demo_file (demo_world route_twice)))
             (output_dir demo_file)
           ` set (filter has_id [JObj [(''scene_id'', JStr ''s1''), (''text'', JStr ''a'')],
                                 JObj [(''scene_id'', JStr ''s1''), (''text'', JStr ''b'')]]))
     < 2"
proof -
  let ?w = "demo_world route_twice"
  let ?W = "snd (main demo_lib demo_file ?w)"
  let ?a = "JObj [(''scene_id'', JStr ''s1''), (''text'', JStr ''a'')]"
  let ?b = "JObj [(''scene_id'', JStr ''s1''), (''text'', JStr ''b'')]"
  let ?loc = "scene_loc demo_lib ?W (output_dir demo_file)"
  have load: "load_route_json demo_lib ?w (route_path demo_file)
      = Inr (JObj [(''scenes'', JArr [?a, ?b])])"
    by code_simp
  have sc: "map_of [(''scenes'', JArr [?a, ?b])] ''scenes'' = Some (JArr [?a, ?b])"
    by simp
  have "fst (main demo_lib demo_file ?w) = Inr ()"
    by code_simp
  then have run: "main demo_lib demo_file ?w = (Inr (), ?W)"
    by (rule run_pair)
  have s: "?a \<in> set [?a, ?b]" by simp
  have hid: "has_id ?a" by (simp add: has_id_def)
  have ids: "filter has_id [?a, ?b] = [?a, ?b]"
    by (simp add: has_id_def)
  have same: "filter (same_id ?a) [?a, ?b] = [?a, ?b]"
    by (simp add: same_id_def has_id_def py_get_def)
  have la: "?loc ?a = [''proj'', ''data'', ''route_gu_wan_scenes'', ''s1.json'']"
    by code_simp
  have ws: "writers demo_lib ?W (output_dir demo_file) [?a, ?b] (?loc ?a) = [?a, ?b]"
    by code_simp
  have dir: "output_dir demo_file = ''/proj/data/route_gu_wan_scenes''"
    by code_simp
  have n: "nat_repr (Suc (Suc 0)) = ''2''"
    by (simp add: nat_repr.simps digit_char_def)
  have s0: "stdout ?w = []"
    by (simp add: demo_world_def)
  note T = last_write_wins [OF load sc run s hid]
  have c4: "(\<forall>t\<in>set (writers demo_lib ?W (output_dir demo_file) [?a, ?b] (?loc ?a)). same_id ?a t)
      \<longrightarrow> files ?W (?loc ?a) = Some (scene_text (last (filter (same_id ?a) [?a, ?b])))"
    using T by blast
  have c5: "stdout ?W = stdout ?w @ ''written '' @ nat_repr (length (filter has_id [?a, ?b]))
             @ '' scene files to '' @ output_dir demo_file @ [CHR 0x0A]"
    using T by blast
  have c6: "1 < length (filter (same_id ?a) [?a, ?b]) \<longrightarrow>
      card (?loc ` set (filter has_id [?a, ?b])) < length (filter has_id [?a, ?b])"
    using T by blast
  have all: "\<forall>t\<in>set (writers demo_lib ?W (output_dir demo_file) [?a, ?b] (?loc ?a)). same_id ?a t"
    unfolding ws by (simp add: same_id_def has_id_def py_get_def)
  have r1: "files ?W [''proj'', ''data'', ''route_gu_wan_scenes'', ''s1.json''] = Some (scene_text ?b)"
    using c4 all unfolding same la by simp
  have r2: "stdout ?W = ''written 2 scene files to /proj/data/route_gu_wan_scenes'' @ [CHR 0x0A]"
    unfolding c5 ids s0 dir by (simp add: n)
  have "card (?loc ` set (filter has_id [?a, ?b])) < length (filter has_id [?a, ?b])"
    using c6 unfolding same by simp
  then have r3: "card (?loc ` set (filter has_id [?a, ?b])) < 2"
    unfolding ids by simp
  show ?thesis
    by (intro conjI) (rule r1 r2 r3)+
qed

text \<open>
  The claim as stated fails when a later scene with a different identifier names the same
  file: after \<^verbatim>\<open>s1\<close>, \<^verbatim>\<open>s1\<close>, \<^verbatim>\<open>./s1\<close> the file \<^verbatim>\<open>s1.json\<close> holds the third scene, not the
  last scene with the identifier \<^verbatim>\<open>s1\<close>.
\<close>

theorem last_write_by_other_id:
  "load_route_json demo_lib (demo_world route_alias) (route_path demo_file)
     = Inr (JObj [(''scenes'',
          JArr [JObj [(''scene_id'', JStr ''s1''), (''text'', JStr ''a'')],
                JObj [(''scene_id'', JStr ''s1''), (''text'', JStr ''b'')],
                JObj [(''scene_id'', JStr ''./s1''), (''text'', JStr ''c'')]])])
   \<and> fst (main demo_lib demo_file (demo_world route_alias)) = Inr ()
   \<and> filter (same_id (JObj [(''scene_id'', JStr ''s1''), (''text'', JStr ''a'')]))
        [JObj [(''scene_id'', JStr ''s1''), (''text'', JStr ''a'')],
         JObj [(''scene_id'', JStr ''s1''), (''text'', JStr ''b'')],
         JObj [(''scene_id'', JStr ''./s1''), (''text'', JStr ''c'')]]
      = [JObj [(''scene_id'', JStr ''s1''), (''text'', JStr ''a'')],
         JObj [(''scene_id'', JStr ''s1''), (''text'', JStr ''b'')]]
   \<and> locate (snd (main demo_lib demo_file (demo_world route_alias)))
        (scene_path demo_lib (output_dir demo_file)
           (JObj [(''scene_id'', JStr ''s1''), (''text'', JStr ''a'')]))
      = Inr [''proj'', ''data'', ''route_gu_wan_scenes'', ''s1.json'']
   \<and> files (snd (main demo_lib demo_file (demo_world route_alias)))
        [''proj'', ''data'', ''route_gu_wan_scenes'', ''s1.json'']
      = Some (scene_text (JObj [(''scene_id'', JStr ''./s1''), (''text'', JStr ''c'')]))
   \<and> scene_text (JObj [(''scene_id'', JStr ''./s1''), (''text'', JStr ''c'')])
      \<noteq> scene_text (JObj [(''scene_id'', JStr ''s1''), (''text'', JStr ''b'')])"
  by code_simp

subsection \<open>Running the program again\<close>

text \<open>
  C9. If a run completes and has left the input file as it was, a second run from the
  resulting world completes as well and leaves every file with the same contents (and the
  same directories); it prints the same summary line once more.
\<close>

theorem main_twice:
  assumes run: "main lib af w = (Inr (), w1)"
    and same: "read_text w1 (route_path af) = read_text w (route_path af)"
  shows "main lib af w1 = (Inr (), w1\<lparr>stdout := stdout w1 @ drop (length (stdout w)) (stdout w1)\<rparr>)"
proof -
  let ?dir = "output_dir af"
  from run obtain route sv items ps w' where
    load: "load_route_json lib w (route_path af) = Inr route"
    and get: "py_get route ''scenes'' (JArr []) = Inr sv"
    and iter: "py_iter sv = Inr items"
    by (rule main_success_cases)
  note R = main_run [OF load get iter run]
  have load1: "load_route_json lib w1 (route_path af) = Inr route"
    using load same by (simp add: load_route_json_def)
  have f1: "files w1 = put_scenes lib w1 ?dir (files w) items"
    by (rule R(2))
  have "put_scenes lib w1 ?dir (files w1) items
      = put_scenes lib w1 ?dir (put_scenes lib w1 ?dir (files w) items) items"
    by (rule arg_cong [where f = "\<lambda>f. put_scenes lib w1 ?dir f items", OF f1])
  also have "\<dots> = put_scenes lib w1 ?dir (files w) items"
    by (rule put_scenes_idem)
  also have "\<dots> = files w1"
    by (rule f1 [symmetric])
  finally have "put_scenes lib w1 ?dir (files w1) items = files w1" .
  then have loop: "main_loop lib ?dir items [] w1
      = (Inr (map (scene_path lib ?dir) (filter has_id items)), w1)"
    using R(7) [OF refl refl] by simp
  have out: "drop (length (stdout w)) (stdout w1)
      = summary_line (length (filter has_id items)) ?dir @ [CHR 0x0A]"
    using R(1) by simp
  show ?thesis
    using main_loaded [OF load1 get iter] loop out by (simp add: py_print_def)
qed

theorem main_twice_witness:
  "fst (main demo_lib demo_file (snd (main demo_lib demo_file (demo_world route_mixed)))) = Inr ()
   \<and> files (snd (main demo_lib demo_file (snd (main demo_lib demo_file (demo_world route_mixed)))))
       = files (snd (main demo_lib demo_file (demo_world route_mixed)))
   \<and> dirs (snd (main demo_lib demo_file (snd (main demo_lib demo_file (demo_world route_mixed)))))
       = dirs (snd (main demo_lib demo_file (demo_world route_mixed)))"
proof -
  let ?w = "demo_world route_mixed"
  let ?W = "snd (main demo_lib demo_file ?w)"
  have "fst (main demo_lib demo_file ?w) = Inr ()"
    by code_simp
  then have run: "main demo_lib demo_file ?w = (Inr (), ?W)"
    by (rule run_pair)
  have same: "read_text ?W (route_path demo_file) = read_text ?w (route_path demo_file)"
    by code_simp
  show ?thesis
    unfolding main_twice [OF run same] by simp
qed

subsection \<open>Round trip of a written scene\<close>




subsection \<open>Format of a written scene\<close>

text \<open>
  C4. For every scene written, the content of the output file is the scene serialized as
  JSON text with an indentation of four spaces per level (\<open>pretty 0 scene\<close>, the format in
  the specification's words, which the encoder of the source refines), followed by exactly one
  line break: the JSON body ends in the closing brace of the scene. Strings are rendered by
  \<open>encode_basestring\<close>, which copies every non-ASCII character (every byte from \<open>0x80\<close> on)
  and never turns it into a \<^verbatim>\<open>\uXXXX\<close> escape. The bytes of the file are the bytes of that
  text, and they are valid UTF-8 whenever the strings of the scene are.
\<close>

theorem write_scene_file_format:
  assumes ok: "write_scene_file lib dir scene w = (Inr p, w')" and p: "p \<noteq> []"
  shows "locate w' p = Inr (scene_loc lib w' dir scene)
     \<and> files w' (scene_loc lib w' dir scene) = Some (pretty 0 scene @ [CHR 0x0A])
     \<and> last (pretty 0 scene) = CHR ''}''
     \<and> (\<forall>s. (\<forall>c\<in>set s. 128 \<le> (of_char c :: nat))
            \<longrightarrow> encode_basestring s = [CHR 0x22] @ s @ [CHR 0x22])
     \<and> (utf8_json scene \<longrightarrow> valid_utf8 (pretty 0 scene @ [CHR 0x0A]))"
proof -
  note W = write_scene_file_written [OF ok p]
  have l: "locate w' p = Inr (scene_loc lib w' dir scene)"
    using W by blast
  have "files w' (scene_loc lib w' dir scene) = Some (scene_text scene)"
    using W by blast
  then have f: "files w' (scene_loc lib w' dir scene) = Some (pretty 0 scene @ [CHR 0x0A])"
    by (simp add: scene_text_def json_dumps_pretty)
  have "has_id scene"
    using W by blast
  then obtain d where "scene = JObj d"
    by (cases scene) (simp_all add: has_id_def)
  then have e: "last (pretty 0 scene) = CHR ''}''"
    by simp
  have h: "\<forall>s. (\<forall>c\<in>set s. 128 \<le> (of_char c :: nat))
      \<longrightarrow> encode_basestring s = [CHR 0x22] @ s @ [CHR 0x22]"
    by (simp add: encode_basestring_high)
  have u: "utf8_json scene \<longrightarrow> valid_utf8 (pretty 0 scene @ [CHR 0x0A])"
    using valid_utf8_scene_text [of scene] by (simp add: json_dumps_pretty)
  show ?thesis
    using l f e h u by blast
qed

theorem write_scene_file_format_witness:
  "files (snd (write_scene_file demo_lib ''/proj/out'' demo_scene (demo_world [])))
      [''proj'', ''out'', ''s1.json''] = Some demo_scene_file
   \<and> valid_utf8 demo_scene_file
   \<and> encode_basestring [CHR 0xE4, CHR 0xBD, CHR 0xA0]
       = [CHR 0x22, CHR 0xE4, CHR 0xBD, CHR 0xA0, CHR 0x22]"
proof -
  let ?r = "write_scene_file demo_lib ''/proj/out'' demo_scene (demo_world [])"
  have "fst ?r = Inr ''/proj/out/s1.json''"
    by code_simp
  then have ok: "?r = (Inr ''/proj/out/s1.json'', snd ?r)"
    by (cases ?r) simp
  have ne: "''/proj/out/s1.json'' \<noteq> []"
    by simp
  have loc: "scene_loc demo_lib (snd ?r) ''/proj/out'' demo_scene = [''proj'', ''out'', ''s1.json'']"
    by code_simp
  have body: "pretty 0 demo_scene @ [CHR 0x0A] = demo_scene_file"
    by code_simp
  have u8: "utf8_json demo_scene"
    by code_simp
  have hi: "\<forall>c\<in>set [CHR 0xE4, CHR 0xBD, CHR 0xA0]. 128 \<le> (of_char c :: nat)"
    by simp
  note T = write_scene_file_format [OF ok ne]
  have f: "files (snd ?r) (scene_loc demo_lib (snd ?r) ''/proj/out'' demo_scene)
      = Some (pretty 0 demo_scene @ [CHR 0x0A])"
    using T by blast
  have v: "valid_utf8 (pretty 0 demo_scene @ [CHR 0x0A])"
    using T u8 by blast
  have "\<forall>s. (\<forall>c\<in>set s. 128 \<le> (of_char c :: nat))
      \<longrightarrow> encode_basestring s = [CHR 0x22] @ s @ [CHR 0x22]"
    using T by blast
  then have e: "encode_basestring [CHR 0xE4, CHR 0xBD, CHR 0xA0]
       = [CHR 0x22] @ [CHR 0xE4, CHR 0xBD, CHR 0xA0] @ [CHR 0x22]"
    using hi by blast
  show ?thesis
    using f v e unfolding loc body by simp
qed

subsection \<open>Failures of the loader\<close>




end
